theory Spec2Isabelle
  imports Complex_Main "HOL-Library.Multiset" "HOL-Library.Product_Lexorder"
begin

section \<open>Data model\<close>

text \<open>
  The layout code lives in \<^verbatim>\<open>src/pages/index.tsx\<close>, which holds two revisions of the page:
  the tiered packer (free rectangles, then a shelf fill-in pass) and the earlier naive
  best-area-fit packer. Both are embedded here.

  JavaScript numbers are modelled as exact reals. In the tiered packer every coordinate
  and size is an integer (the unit cell is quantised with \<^verbatim>\<open>Math.floor\<close> and
  \<^verbatim>\<open>Math.round\<close>), so its arithmetic is exact in the source as well; in the naive packer
  the sizes come out of \<^verbatim>\<open>Math.sqrt\<close> and the reals idealise the doubles.
  \<^verbatim>\<open>Math.round\<close> rounds halves upwards, which is \<^term>\<open>round\<close> of HOL.
  \<^verbatim>\<open>Math.sin\<close>, whose result is implementation-approximated, is a parameter \<open>sine\<close>
  of the tiered layout.
\<close>

record SteamGame =
  appid :: int
  name :: string
  playtime_forever :: int

text \<open>\<^verbatim>\<open>type Rect = { x, y, width, height }\<close>\<close>

record Rect =
  rx :: real
  ry :: real
  width :: real
  height :: real

text \<open>
  \<^verbatim>\<open>LayoutGame = SteamGame & { x, y, width, height, albumUrl }\<close>: the rectangle of a game.
  The fields of the game are kept together in \<open>game\<close>; \<^verbatim>\<open>albumUrl\<close> is a string built
  from \<open>appid\<close> alone and is left out.
\<close>

record LayoutGame = Rect +
  game :: SteamGame

text \<open>The elements of \<^verbatim>\<open>prepared\<close>: \<^verbatim>\<open>{ game, mult, width, height, rnd }\<close>.\<close>

record Prepared =
  pgame :: SteamGame
  mult :: int
  pwidth :: real
  pheight :: real
  rnd :: real

text \<open>The elements of \<^verbatim>\<open>items\<close> of the naive packer: \<^verbatim>\<open>{ ...game, width, height }\<close>.\<close>

record SizedGame =
  sgame :: SteamGame
  swidth :: real
  sheight :: real

section \<open>Canvas sizer\<close>

definition calculateCanvasDimensions :: "nat \<Rightarrow> real \<times> real" where
  "calculateCanvasDimensions gameCount =
     (if gameCount = 0 then (1080, 1920)
      else
        let baseArea = 1080 * 1920;
            additionalAreaPerGame = 50000;
            totalArea = baseArea +
              (if gameCount > 10 then (real gameCount - 10) * additionalAreaPerGame else 0);
            targetAspect = 9 / 16;
            w = sqrt (totalArea * targetAspect);
            h = w / targetAspect;
            finalWidth = max 1080 (min 4320 (real_of_int (round (w / 100)) * 100));
            finalHeight = max 1920 (min 7680 (real_of_int (round (h / 100)) * 100))
        in (finalWidth, finalHeight))"

section \<open>Geometry\<close>

text \<open>\<^verbatim>\<open>contains(a, b)\<close>: rectangle \<open>b\<close> lies inside rectangle \<open>a\<close>.\<close>

definition contains :: "'a Rect_scheme \<Rightarrow> 'b Rect_scheme \<Rightarrow> bool" where
  "contains a b \<longleftrightarrow>
     rx a \<le> rx b \<and> ry a \<le> ry b \<and>
     rx a + width a \<ge> rx b + width b \<and> ry a + height a \<ge> ry b + height b"

text \<open>
  The interiors of two rectangles intersect: the open intervals they span meet on both
  axes. Rectangles that only share an edge, and rectangles of zero width or height, do
  not overlap anything.
\<close>

definition overlaps :: "'a Rect_scheme \<Rightarrow> 'b Rect_scheme \<Rightarrow> bool" where
  "overlaps a b \<longleftrightarrow>
     max (rx a) (rx b) < min (rx a + width a) (rx b + width b) \<and>
     max (ry a) (ry b) < min (ry a + height a) (ry b + height b)"




section \<open>Tiered packer: size model\<close>

definition TIER_MAX :: real where
  "TIER_MAX = 8"

definition ASPECT_RATIO :: real where
  "ASPECT_RATIO = 2 / 3"

definition RANDOM_SEED :: real where
  "RANDOM_SEED = 1337.123"

definition RANDOM_JITTER :: real where
  "RANDOM_JITTER = 0.2"

text \<open>
  The body of \<^verbatim>\<open>baseList.map((game) => ...)\<close>: the tier multiplier of a game, given the
  square root of the largest (clamped) play time.
\<close>

definition tierMult :: "real \<Rightarrow> SteamGame \<Rightarrow> int" where
  "tierMult sqrtMax g =
     (let sqrtVal = sqrt (real_of_int (max (playtime_forever g) 1));
          normalized = sqrtVal / sqrtMax;
          m = max 1 (round (normalized * TIER_MAX));
          hours = real_of_int (playtime_forever g) / 60
      in if hours \<ge> 10 then max m 2 else 1)"

text \<open>
  The unit cell \<^verbatim>\<open>(baseUnitWidth, baseUnitHeight)\<close>, from the canvas and the list of
  \<^verbatim>\<open>{ game, mult }\<close> pairs.
\<close>

definition unitCell :: "real \<Rightarrow> real \<Rightarrow> (SteamGame \<times> int) list \<Rightarrow> real \<times> real" where
  "unitCell LAYOUT_WIDTH LAYOUT_HEIGHT items =
     (let totalUnits = sum_list (map (\<lambda>it. snd it * snd it) items);
          canvasArea = LAYOUT_WIDTH * LAYOUT_HEIGHT;
          baseUnitArea = canvasArea / real_of_int (max totalUnits 1);
          baseUnitHeight0 = sqrt (baseUnitArea / ASPECT_RATIO);
          baseUnitWidth0 = baseUnitHeight0 * ASPECT_RATIO;
          maxMult = (if items \<noteq> [] then Max (set (map snd items)) else 1);
          maxItemWidth = real_of_int maxMult * baseUnitWidth0;
          baseUnitWidth1 =
            (if maxItemWidth > LAYOUT_WIDTH
             then (let scale = LAYOUT_WIDTH / maxItemWidth in baseUnitWidth0 * scale)
             else baseUnitWidth0);
          gridCols = max 1 (floor (LAYOUT_WIDTH / max baseUnitWidth1 1));
          baseUnitWidth = max 1 (floor (LAYOUT_WIDTH / real_of_int gridCols));
          baseUnitHeight = max 1 (round (real_of_int baseUnitWidth / ASPECT_RATIO))
      in (real_of_int baseUnitWidth, real_of_int baseUnitHeight))"

definition headerInfoHeight :: "real \<Rightarrow> real" where
  "headerInfoHeight LAYOUT_HEIGHT =
     real_of_int (max 60 (round (min (LAYOUT_HEIGHT * 0.06) 100)))"

definition prepare :: "(real \<Rightarrow> real) \<Rightarrow> real \<Rightarrow> real \<Rightarrow> SteamGame \<times> int \<Rightarrow> Prepared" where
  "prepare sine baseUnitWidth baseUnitHeight it =
     \<lparr>pgame = fst it, mult = snd it,
      pwidth = real_of_int (snd it) * baseUnitWidth,
      pheight = real_of_int (snd it) * baseUnitHeight,
      rnd = \<bar>sine (real_of_int (appid (fst it)) * RANDOM_SEED)\<bar>\<rparr>"

section \<open>Tiered packer: free rectangles\<close>

text \<open>
  The packer's mutable state. \<^verbatim>\<open>freeRects\<close> is an array of objects that the source looks
  up by reference (\<^verbatim>\<open>freeRects.indexOf(fr)\<close>), so every free rectangle carries the
  identity it was created with, and \<open>nextId\<close> is the next identity to hand out.
  \<^verbatim>\<open>remainingAsc\<close> is the array \<^verbatim>\<open>overflow\<close> itself, sorted in place.
\<close>

record Packer =
  freeRects :: "(nat \<times> Rect) list"
  nextId :: nat
  results :: "LayoutGame list"
  overflow :: "Prepared list"

text \<open>
  \<^verbatim>\<open>pruneFreeRects\<close>: index \<open>i\<close> walks the array, \<open>kept\<close> is the part before \<open>i\<close> and
  the second argument the part from \<open>i\<close> on. The entry at \<open>i\<close> is spliced out, and \<open>i\<close>
  stays, when some entry at another index contains it.
\<close>

fun prune_loop :: "(nat \<times> Rect) list \<Rightarrow> (nat \<times> Rect) list \<Rightarrow> (nat \<times> Rect) list" where
  "prune_loop kept [] = kept"
| "prune_loop kept (ri # rest) =
     (if list_ex (\<lambda>rj. contains (snd rj) (snd ri)) (kept @ rest)
      then prune_loop kept rest
      else prune_loop (kept @ [ri]) rest)"

definition pruneFreeRects :: "(nat \<times> Rect) list \<Rightarrow> (nat \<times> Rect) list" where
  "pruneFreeRects frs = prune_loop [] frs"

definition addFreeRect :: "Rect \<Rightarrow> Packer \<Rightarrow> Packer" where
  "addFreeRect r st =
     (if width r \<le> 0 \<or> height r \<le> 0 then st
      else st\<lparr>freeRects := freeRects st @ [(nextId st, r)], nextId := Suc (nextId st)\<rparr>)"

definition rectScore :: "real \<Rightarrow> real \<Rightarrow> real \<Rightarrow> Rect \<Rightarrow> real" where
  "rectScore LAYOUT_WIDTH w h fr =
     (let exactW = (width fr = w);
          exactH = (height fr = h)
      in ry fr * LAYOUT_WIDTH + rx fr +
         (if exactW \<and> exactH then - 1000000 else if exactW \<or> exactH then - 500000 else 0))"

text \<open>
  The loop of \<^verbatim>\<open>chooseBestRect\<close>. The pair \<^verbatim>\<open>(best, bestScore)\<close> starts as
  \<^verbatim>\<open>(null, +Infinity)\<close>, which is \<open>None\<close> here.
\<close>

fun chooseBest_loop ::
  "real \<Rightarrow> real \<Rightarrow> real \<Rightarrow> (nat \<times> Rect) list \<Rightarrow> ((nat \<times> Rect) \<times> real) option
     \<Rightarrow> ((nat \<times> Rect) \<times> real) option" where
  "chooseBest_loop LAYOUT_WIDTH w h [] best = best"
| "chooseBest_loop LAYOUT_WIDTH w h (fr # frs) best =
     (if width (snd fr) \<ge> w \<and> height (snd fr) \<ge> h then
        (let score = rectScore LAYOUT_WIDTH w h (snd fr) in
         if (case best of None \<Rightarrow> True | Some b \<Rightarrow> score < snd b)
         then chooseBest_loop LAYOUT_WIDTH w h frs (Some (fr, score))
         else chooseBest_loop LAYOUT_WIDTH w h frs best)
      else chooseBest_loop LAYOUT_WIDTH w h frs best)"

definition chooseBestRect :: "real \<Rightarrow> (nat \<times> Rect) list \<Rightarrow> real \<Rightarrow> real \<Rightarrow> (nat \<times> Rect) option" where
  "chooseBestRect LAYOUT_WIDTH frs w h = map_option fst (chooseBest_loop LAYOUT_WIDTH w h frs None)"

text \<open>\<^verbatim>\<open>idx = freeRects.indexOf(fr); if (idx >= 0) freeRects.splice(idx, 1)\<close>\<close>

fun removeRect :: "nat \<Rightarrow> (nat \<times> Rect) list \<Rightarrow> (nat \<times> Rect) list" where
  "removeRect k [] = []"
| "removeRect k (fr # frs) = (if fst fr = k then frs else fr # removeRect k frs)"

definition splitFreeRect :: "nat \<times> Rect \<Rightarrow> Rect \<Rightarrow> Packer \<Rightarrow> Packer" where
  "splitFreeRect target placed st =
     (let fr = snd target;
          st1 = st\<lparr>freeRects := removeRect (fst target) (freeRects st)\<rparr>;
          right = \<lparr>rx = rx placed + width placed, ry = ry fr,
                   width = width fr - width placed, height = height placed\<rparr>;
          bottom = \<lparr>rx = rx fr, ry = ry placed + height placed,
                    width = width fr, height = height fr - height placed\<rparr>;
          st2 = addFreeRect bottom (addFreeRect right st1)
      in st2\<lparr>freeRects := pruneFreeRects (freeRects st2)\<rparr>)"

text \<open>The body of the first-phase loop \<^verbatim>\<open>for (const it of remainingDesc)\<close>.\<close>

definition placeItem :: "real \<Rightarrow> Prepared \<Rightarrow> Packer \<Rightarrow> Packer" where
  "placeItem LAYOUT_WIDTH it st =
     (let w = pwidth it; h = pheight it in
      case chooseBestRect LAYOUT_WIDTH (freeRects st) w h of
        None \<Rightarrow> st\<lparr>overflow := overflow st @ [it]\<rparr>
      | Some target \<Rightarrow>
          (let placed = \<lparr>rx = rx (snd target), ry = ry (snd target), width = w, height = h\<rparr> in
           splitFreeRect target placed
             (st\<lparr>results := results st @
                [\<lparr>rx = rx placed, ry = ry placed, width = width placed, height = height placed,
                  game = pgame it\<rparr>]\<rparr>)))"

section \<open>Tiered packer: shelf fill-in\<close>

text \<open>
  The scan \<^verbatim>\<open>for (let i = 0; i < remainingAsc.length; i++)\<close> for the narrowest item that
  fits the row. \<^verbatim>\<open>(foundIndex, foundWidth)\<close> starts as \<^verbatim>\<open>(-1, +Infinity)\<close>, which is
  \<open>None\<close> here.
\<close>

fun findNarrowest_loop ::
  "real \<Rightarrow> real \<Rightarrow> Prepared list \<Rightarrow> nat \<Rightarrow> (nat \<times> real) option \<Rightarrow> (nat \<times> real) option" where
  "findNarrowest_loop spaceW rowHeight [] i found = found"
| "findNarrowest_loop spaceW rowHeight (it # its) i found =
     (if pwidth it \<le> spaceW \<and> pheight it \<le> rowHeight \<and>
         (case found of None \<Rightarrow> True | Some f \<Rightarrow> pwidth it < snd f)
      then findNarrowest_loop spaceW rowHeight its (Suc i) (Some (i, pwidth it))
      else findNarrowest_loop spaceW rowHeight its (Suc i) found)"

text \<open>The locals of one row, with the two arrays the row loop updates.\<close>

record RowState =
  localX :: real
  spaceW :: real
  rowMaxH :: real
  rowPlaced :: nat
  remainingAsc :: "Prepared list"
  rowResults :: "LayoutGame list"

text \<open>The row loop \<^verbatim>\<open>for (;;)\<close> of \<^verbatim>\<open>fillRectWithShelf\<close>.\<close>

function fillRow :: "real \<Rightarrow> real \<Rightarrow> real \<Rightarrow> RowState \<Rightarrow> RowState" where
  "fillRow baseUnitWidth rowHeight rectY s =
     (case findNarrowest_loop (spaceW s) rowHeight (remainingAsc s) 0 None of
        None \<Rightarrow> s
      | Some found \<Rightarrow>
          (let foundIndex = fst found;
               it = remainingAsc s ! foundIndex;
               s' = \<lparr>localX = localX s + pwidth it,
                     spaceW = spaceW s - pwidth it,
                     rowMaxH = max (rowMaxH s) (pheight it),
                     rowPlaced = Suc (rowPlaced s),
                     remainingAsc = take foundIndex (remainingAsc s) @ drop (Suc foundIndex) (remainingAsc s),
                     rowResults = rowResults s @
                       [\<lparr>rx = localX s, ry = rectY, width = pwidth it, height = pheight it,
                         game = pgame it\<rparr>]\<rparr>
           in if spaceW s' < baseUnitWidth then s' else fillRow baseUnitWidth rowHeight rectY s'))"
  by pat_completeness auto
termination
proof -
  have bound: "fst r < i + length its"
    if "findNarrowest_loop sw rh its i fnd = Some r" "\<forall>q. fnd = Some q \<longrightarrow> fst q < i"
    for sw rh its i fnd r
    using that
  proof (induction its arbitrary: i fnd)
    case Nil
    then show ?case by simp
  next
    case (Cons a its)
    from Cons.prems Cons.IH[of "Suc i"] show ?case
      by (fastforce split: if_splits)
  qed
  show ?thesis
  proof (relation "measure (\<lambda>(b, r, y, s). length (remainingAsc s))", goal_cases)
    case 1
    show ?case by simp
  next
    case (2 baseUnitWidth rowHeight rectY s found foundIndex it s')
    from bound[OF 2(1)] have "fst found < length (remainingAsc s)" by simp
    with 2 show ?case by simp
  qed
qed


declare fillRow.simps [simp del]

text \<open>
  The loop \<^verbatim>\<open>while (rect.height >= baseUnitHeight)\<close> of \<^verbatim>\<open>fillRectWithShelf\<close>; it returns
  the local \<^verbatim>\<open>rect\<close> with the state. The flag \<^verbatim>\<open>placedAny\<close>, which no caller reads, is
  left out.
\<close>

function fillRows :: "real \<Rightarrow> real \<Rightarrow> Rect \<Rightarrow> Packer \<Rightarrow> Rect \<times> Packer" where
  "fillRows baseUnitWidth baseUnitHeight rect st =
     (if height rect \<ge> baseUnitHeight then
        (let candidates = filter (\<lambda>it. pheight it \<le> height rect \<and> pwidth it \<le> width rect) (overflow st) in
         if candidates = [] then (rect, st)
         else
           (let rowHeight = Min (set (map pheight candidates));
                row = fillRow baseUnitWidth rowHeight (ry rect)
                        \<lparr>localX = rx rect, spaceW = width rect, rowMaxH = 0, rowPlaced = 0,
                         remainingAsc = overflow st, rowResults = results st\<rparr>;
                st1 = st\<lparr>results := rowResults row, overflow := remainingAsc row\<rparr>
            in if rowPlaced row = 0 then (rect, st1)
               else
                 (let st2 = (if spaceW row > 0
                             then addFreeRect \<lparr>rx = localX row, ry = ry rect, width = spaceW row,
                                               height = rowMaxH row\<rparr> st1
                             else st1);
                      rect' = rect\<lparr>ry := ry rect + rowMaxH row, height := height rect - rowMaxH row\<rparr>;
                      st3 = st2\<lparr>freeRects := pruneFreeRects (freeRects st2)\<rparr>
                  in fillRows baseUnitWidth baseUnitHeight rect' st3)))
      else (rect, st))"
  by pat_completeness auto
termination
proof -
  have bound: "fst r < i + length its"
    if "findNarrowest_loop sw rh its i fnd = Some r" "\<forall>q. fnd = Some q \<longrightarrow> fst q < i"
    for sw rh its i fnd r
    using that
  proof (induction its arbitrary: i fnd)
    case Nil
    then show ?case by simp
  next
    case (Cons a its)
    from Cons.prems Cons.IH[of "Suc i"] show ?case
      by (fastforce split: if_splits)
  qed
  have len: "length (remainingAsc (fillRow b r y s)) + rowPlaced (fillRow b r y s)
               = length (remainingAsc s) + rowPlaced s" for b r y s
  proof (induction b r y s rule: fillRow.induct)
    case (1 b r y s)
    show ?case
    proof (cases "findNarrowest_loop (spaceW s) r (remainingAsc s) 0 None")
      case None
      then show ?thesis by (simp add: fillRow.simps[of b r y s])
    next
      case (Some found)
      from bound[OF Some] have lt: "fst found < length (remainingAsc s)" by simp
      show ?thesis
        using Some lt "1.IH"[OF Some refl refl refl]
        by (simp add: fillRow.simps[of b r y s] Let_def)
    qed
  qed
  show ?thesis
  proof (relation "measure (\<lambda>(b, h, r, st). length (overflow st))", goal_cases)
    case 1
    show ?case by simp
  next
    case (2 baseUnitWidth baseUnitHeight rect st candidates rowHeight row st1 st2 rect' st3)
    have "length (remainingAsc row) + rowPlaced row = length (overflow st)"
      unfolding 2(5) by (simp add: len)
    with 2(7) have "length (remainingAsc row) < length (overflow st)" by simp
    moreover have "overflow st3 = remainingAsc row"
      unfolding 2(10) 2(8) 2(6) by (simp add: addFreeRect_def)
    ultimately show ?case by simp
  qed
qed

declare fillRows.simps [simp del]

definition fillRectWithShelf :: "real \<Rightarrow> real \<Rightarrow> nat \<times> Rect \<Rightarrow> Packer \<Rightarrow> Packer" where
  "fillRectWithShelf baseUnitWidth baseUnitHeight fr st =
     (let st1 = st\<lparr>freeRects := removeRect (fst fr) (freeRects st)\<rparr>;
          filled = fillRows baseUnitWidth baseUnitHeight (snd fr) st1;
          rect = fst filled;
          st2 = snd filled
      in if height rect > 0 \<and> width rect > 0
         then (let st3 = addFreeRect rect st2 in st3\<lparr>freeRects := pruneFreeRects (freeRects st3)\<rparr>)
         else st2)"

text \<open>
  The second phase: \<^verbatim>\<open>freeRects.sort(...)\<close>, \<^verbatim>\<open>overflow.sort(...)\<close> (both stable), then
  \<^verbatim>\<open>for (const fr of freeRects.slice()) fillRectWithShelf(fr)\<close> over the snapshot.
\<close>

definition shelfPhase :: "real \<Rightarrow> real \<Rightarrow> Packer \<Rightarrow> Packer" where
  "shelfPhase baseUnitWidth baseUnitHeight st =
     (let sortedFree = sort_key (\<lambda>fr. (ry (snd fr), rx (snd fr))) (freeRects st);
          st1 = st\<lparr>freeRects := sortedFree, overflow := sort_key mult (overflow st)\<rparr>
      in fold (fillRectWithShelf baseUnitWidth baseUnitHeight) sortedFree st1)"

section \<open>Tiered packer: the layout\<close>

text \<open>
  The body of \<^verbatim>\<open>layoutGames\<close> after the empty-input guard, returning the final state:
  \<open>results\<close> is the value the source returns, \<open>overflow\<close> the items it drops.
\<close>

definition layoutState :: "(real \<Rightarrow> real) \<Rightarrow> real \<times> real \<Rightarrow> SteamGame list \<Rightarrow> Packer" where
  "layoutState sine canvasDimensions initialGames =
     (let sorted = sort_key (\<lambda>g. - playtime_forever g) initialGames;
          baseList = sorted;
          times = map (\<lambda>g. max (playtime_forever g) 1) baseList;
          maxTime = fold max times 1;
          sqrtMax = sqrt (real_of_int maxTime);
          items = sort_key (\<lambda>it. (- playtime_forever (fst it), - snd it))
                    (map (\<lambda>g. (g, tierMult sqrtMax g)) baseList);
          LAYOUT_WIDTH = fst canvasDimensions;
          LAYOUT_HEIGHT = snd canvasDimensions;
          cell = unitCell LAYOUT_WIDTH LAYOUT_HEIGHT items;
          baseUnitWidth = fst cell;
          baseUnitHeight = snd cell;
          st0 = \<lparr>freeRects =
                   [(0, \<lparr>rx = 0, ry = headerInfoHeight LAYOUT_HEIGHT, width = LAYOUT_WIDTH,
                         height = max 0 (LAYOUT_HEIGHT - headerInfoHeight LAYOUT_HEIGHT)\<rparr>)],
                 nextId = 1, results = [], overflow = []\<rparr>;
          prepared = map (prepare sine baseUnitWidth baseUnitHeight) items;
          remainingDesc =
            sort_key (\<lambda>a. - real_of_int (mult a) + (rnd a - 0.5) * RANDOM_JITTER) prepared;
          st1 = fold (placeItem LAYOUT_WIDTH) remainingDesc st0
      in shelfPhase baseUnitWidth baseUnitHeight st1)"

definition layoutGames :: "(real \<Rightarrow> real) \<Rightarrow> real \<times> real \<Rightarrow> SteamGame list \<Rightarrow> LayoutGame list" where
  "layoutGames sine canvasDimensions initialGames =
     (if initialGames = [] then [] else results (layoutState sine canvasDimensions initialGames))"

text \<open>The items the tiered layout leaves out of its result.\<close>

definition droppedGames :: "(real \<Rightarrow> real) \<Rightarrow> real \<times> real \<Rightarrow> SteamGame list \<Rightarrow> SteamGame list" where
  "droppedGames sine canvasDimensions initialGames =
     (if initialGames = [] then []
      else map pgame (overflow (layoutState sine canvasDimensions initialGames)))"

section \<open>Naive packer\<close>

text \<open>
  The earlier revision of \<^verbatim>\<open>layoutGames\<close>: a linear size model and one best-area-fit pass.
  For a negative play time the source's \<^verbatim>\<open>Math.sqrt\<close> gives \<^verbatim>\<open>NaN\<close>, which this model
  does not represent: the statements about the naive packer are about play times
  \<open>\<ge> 0\<close>.
\<close>

definition sizedGame :: "SteamGame \<Rightarrow> SizedGame" where
  "sizedGame g =
     (let aspectRatio = 2 / 3;
          area = (real_of_int (playtime_forever g) / 100) * 20;
          h = sqrt (area / aspectRatio);
          w = h * aspectRatio
      in \<lparr>sgame = g, swidth = w, sheight = h\<rparr>)"

text \<open>
  The scan over \<^verbatim>\<open>freeRects\<close> for one game. \<^verbatim>\<open>(bestScore, bestRectIndex, bestNode)\<close>
  starts as \<^verbatim>\<open>(Infinity, -1, null)\<close>, which is \<open>None\<close> here.
\<close>

fun bestFit_loop ::
  "SizedGame \<Rightarrow> Rect list \<Rightarrow> nat \<Rightarrow> (real \<times> nat \<times> Rect) option \<Rightarrow> (real \<times> nat \<times> Rect) option" where
  "bestFit_loop g [] i best = best"
| "bestFit_loop g (freeRect # frs) i best =
     (if swidth g \<le> width freeRect \<and> sheight g \<le> height freeRect then
        (let score = width freeRect * height freeRect - swidth g * sheight g in
         if (case best of None \<Rightarrow> True | Some b \<Rightarrow> score < fst b)
         then bestFit_loop g frs (Suc i)
                (Some (score, i, \<lparr>rx = rx freeRect, ry = ry freeRect,
                                  width = swidth g, height = sheight g\<rparr>))
         else bestFit_loop g frs (Suc i) best)
      else bestFit_loop g frs (Suc i) best)"

text \<open>The remainders pushed after \<^verbatim>\<open>toSplit\<close> has been spliced out.\<close>

definition newFreeRects :: "Rect \<Rightarrow> Rect \<Rightarrow> Rect list" where
  "newFreeRects toSplit bestNode =
     (let canSplitHorizontally = width bestNode < width toSplit;
          canSplitVertically = height bestNode < height toSplit
      in (if canSplitHorizontally
          then [\<lparr>rx = rx toSplit + width bestNode, ry = ry toSplit,
                 width = width toSplit - width bestNode, height = height toSplit\<rparr>]
          else []) @
         (if canSplitVertically
          then [\<lparr>rx = rx toSplit, ry = ry toSplit + height bestNode,
                 width = (if canSplitHorizontally then width bestNode else width toSplit),
                 height = height toSplit - height bestNode\<rparr>]
          else []))"

text \<open>The body of \<^verbatim>\<open>for (const game of items)\<close>, on the pair of \<^verbatim>\<open>freeRects\<close> and \<^verbatim>\<open>results\<close>.\<close>

definition naiveStep :: "SizedGame \<Rightarrow> Rect list \<times> LayoutGame list \<Rightarrow> Rect list \<times> LayoutGame list" where
  "naiveStep g st =
     (case bestFit_loop g (fst st) 0 None of
        None \<Rightarrow> st
      | Some best \<Rightarrow>
          (let bestRectIndex = fst (snd best);
               bestNode = snd (snd best);
               placed = snd st @
                 [\<lparr>rx = rx bestNode, ry = ry bestNode, width = swidth g, height = sheight g,
                   game = sgame g\<rparr>];
               toSplit = fst st ! bestRectIndex;
               rest = take bestRectIndex (fst st) @ drop (Suc bestRectIndex) (fst st)
           in (rest @ newFreeRects toSplit bestNode, placed)))"

definition layoutGamesNaive :: "real \<times> real \<Rightarrow> SteamGame list \<Rightarrow> LayoutGame list" where
  "layoutGamesNaive canvasDimensions initialGames =
     (if initialGames = [] then []
      else
        (let LAYOUT_WIDTH = fst canvasDimensions;
             LAYOUT_HEIGHT = snd canvasDimensions;
             items = sort_key (\<lambda>it. - sheight it) (map sizedGame initialGames)
         in snd (fold naiveStep items
                  ([\<lparr>rx = 0, ry = 0, width = LAYOUT_WIDTH, height = LAYOUT_HEIGHT\<rparr>], []))))"

section \<open>Invariants of the packers\<close>

text \<open>
  The packing invariant: free rectangles \<open>F\<close> and placed rectangles \<open>P\<close> lie inside the
  region \<open>B\<close>, and no two of them overlap.
\<close>

definition packed :: "Rect \<Rightarrow> Rect list \<Rightarrow> LayoutGame list \<Rightarrow> bool" where
  "packed B F P \<longleftrightarrow>
     sorted_wrt (\<lambda>a b. \<not> overlaps a b) F \<and> sorted_wrt (\<lambda>a b. \<not> overlaps a b) P \<and>
     (\<forall>f \<in> set F. \<forall>p \<in> set P. \<not> overlaps f p) \<and>
     (\<forall>f \<in> set F. contains B f) \<and> (\<forall>p \<in> set P. contains B p)"

definition items_pos :: "Prepared list \<Rightarrow> bool" where
  "items_pos its \<longleftrightarrow> (\<forall>it \<in> set its. 0 < pwidth it \<and> 0 < pheight it)"

definition placed_pos :: "LayoutGame list \<Rightarrow> bool" where
  "placed_pos ps \<longleftrightarrow> (\<forall>p \<in> set ps. 0 < width p \<and> 0 < height p)"

text \<open>
  The invariant of the first phase of the tiered packer: the identities of the free
  rectangles are distinct and below \<open>nextId\<close>, free and placed rectangles are packed in
  \<open>B\<close>, and every item has a positive size.
\<close>

definition phase1_inv :: "Rect \<Rightarrow> Packer \<Rightarrow> bool" where
  "phase1_inv B st \<longleftrightarrow>
     distinct (map fst (freeRects st)) \<and> (\<forall>f \<in> set (freeRects st). fst f < nextId st) \<and>
     packed B (map snd (freeRects st)) (results st) \<and>
     items_pos (overflow st) \<and> placed_pos (results st)"

text \<open>
  The invariant of the row loop, for the rectangle \<open>rect\<close> being filled and the results
  \<open>P0\<close> at the start of the row: the games placed in this row so far sit side by side at
  the top of \<open>rect\<close>, left of \<open>localX\<close>, and are no higher than \<open>rowMaxH\<close>.
\<close>

definition row_ok :: "LayoutGame list \<Rightarrow> Rect \<Rightarrow> real \<Rightarrow> RowState \<Rightarrow> bool" where
  "row_ok P0 rect rowHeight s \<longleftrightarrow>
     items_pos (remainingAsc s) \<and> rx rect \<le> localX s \<and>
     localX s + spaceW s = rx rect + width rect \<and>
     0 \<le> rowMaxH s \<and> rowMaxH s \<le> rowHeight \<and>
     (\<exists>new. rowResults s = P0 @ new \<and> length new = rowPlaced s \<and>
        sorted_wrt (\<lambda>a b. \<not> overlaps a b) new \<and>
        (\<forall>p \<in> set new. ry p = ry rect \<and> rx rect \<le> rx p \<and> rx p + width p \<le> localX s \<and>
           rx p + width p \<le> rx rect + width rect \<and> 0 < width p \<and> 0 < height p \<and>
           height p \<le> rowMaxH s))"

text \<open>
  The invariant of the second phase while the rectangle \<open>rect\<close> is being filled and the
  rectangles \<open>T\<close> of the snapshot are still to come.
\<close>

definition shelf_inv :: "Rect \<Rightarrow> Rect list \<Rightarrow> Rect \<Rightarrow> Packer \<Rightarrow> bool" where
  "shelf_inv B T rect st \<longleftrightarrow>
     packed B (rect # T) (results st) \<and> items_pos (overflow st) \<and> placed_pos (results st)"

text \<open>The games a state of the tiered packer accounts for: those placed and those set aside.\<close>

definition accounted :: "Packer \<Rightarrow> SteamGame multiset" where
  "accounted st = mset (map game (results st)) + mset (map pgame (overflow st))"

text \<open>The eligibility test of both packers: an item of width \<open>w\<close> and height \<open>h\<close> fits \<open>fr\<close>.\<close>

definition fitsIn :: "real \<Rightarrow> real \<Rightarrow> Rect \<Rightarrow> bool" where
  "fitsIn w h fr \<longleftrightarrow> w \<le> width fr \<and> h \<le> height fr"

text \<open>
  Entry \<open>i\<close> of \<open>frs\<close> is the first eligible entry of least score: eligible, of a score no
  larger than that of any eligible entry, and smaller than that of any eligible entry
  before it.
\<close>

definition firstMin :: "(Rect \<Rightarrow> bool) \<Rightarrow> (Rect \<Rightarrow> real) \<Rightarrow> Rect list \<Rightarrow> nat \<Rightarrow> bool" where
  "firstMin ok score frs i \<longleftrightarrow>
     i < length frs \<and> ok (frs ! i) \<and>
     (\<forall>fr \<in> set frs. ok fr \<longrightarrow> score (frs ! i) \<le> score fr) \<and>
     (\<forall>fr \<in> set (take i frs). ok fr \<longrightarrow> score (frs ! i) < score fr)"

text \<open>
  The selection rule in the words of the specification: among the eligible free
  rectangles, entry \<open>i\<close> minimises \<open>rect.area - item.area\<close>, ties broken by smaller \<open>y\<close>,
  then smaller \<open>x\<close>.
\<close>

definition specChoice :: "real \<Rightarrow> real \<Rightarrow> Rect list \<Rightarrow> nat \<Rightarrow> bool" where
  "specChoice w h frs i \<longleftrightarrow>
     i < length frs \<and> fitsIn w h (frs ! i) \<and>
     (\<forall>fr \<in> set frs. fitsIn w h fr \<longrightarrow>
        (width (frs ! i) * height (frs ! i) - w * h, ry (frs ! i), rx (frs ! i))
          \<le> (width fr * height fr - w * h, ry fr, rx fr))"

section \<open>Example inputs\<close>

text \<open>Games that have never been played, one per id.\<close>

definition idle :: "int \<Rightarrow> SteamGame" where
  "idle a = \<lparr>appid = a, name = ''idle'', playtime_forever = 0\<rparr>"

definition six_idle :: "SteamGame list" where
  "six_idle = [idle 1, idle 2, idle 3, idle 4, idle 5, idle 6]"

text \<open>
  What the tiered layout makes of an idle game on the canvas of 1100 by 1920 that
  \<open>calculateCanvasDimensions\<close> gives for one to ten games.
\<close>

definition unit_item :: "int \<Rightarrow> Prepared" where
  "unit_item a = \<lparr>pgame = idle a, mult = 1, pwidth = 550, pheight = 825, rnd = 0\<rparr>"

definition cell :: "real \<Rightarrow> real \<Rightarrow> int \<Rightarrow> LayoutGame" where
  "cell px py a = \<lparr>rx = px, ry = py, width = 550, height = 825, game = idle a\<rparr>"

text \<open>
  Games for the naive layout: with a play time of \<open>30 * t\<^sup>2\<close> minutes the linear size model
  gives a width of \<open>2 * t\<close> and a height of \<open>3 * t\<close>.
\<close>

definition played :: "int \<Rightarrow> int \<Rightarrow> SteamGame" where
  "played a t = \<lparr>appid = a, name = ''played'', playtime_forever = 30 * t * t\<rparr>"

definition four_played :: "SteamGame list" where
  "four_played = [played 1 320, played 2 10, played 3 240, played 4 200]"

definition tile :: "real \<Rightarrow> real \<Rightarrow> int \<Rightarrow> int \<Rightarrow> LayoutGame" where
  "tile px py a t =
     \<lparr>rx = px, ry = py, width = 2 * real_of_int t, height = 3 * real_of_int t, game = played a t\<rparr>"

definition canvas1100 :: Rect where
  "canvas1100 = \<lparr>rx = 0, ry = 0, width = 1100, height = 1920\<rparr>"

text \<open>
  The free list of the naive packer on that canvas once the three larger games of
  \<open>four_played\<close> are placed.
\<close>

definition free3 :: "Rect list" where
  "free3 = [\<lparr>rx = 480, ry = 960, width = 160, height = 960\<rparr>,
            \<lparr>rx = 0, ry = 1680, width = 480, height = 240\<rparr>,
            \<lparr>rx = 1040, ry = 0, width = 60, height = 1920\<rparr>,
            \<lparr>rx = 640, ry = 600, width = 400, height = 1320\<rparr>]"

section \<open>Geometry lemmas\<close>

lemma overlaps_sym: "overlaps a b \<longleftrightarrow> overlaps b a"
  by (auto simp: overlaps_def max.commute min.commute)


lemma contains_refl: "contains a a"
  by (simp add: contains_def)

lemma contains_trans: "contains a b \<Longrightarrow> contains b c \<Longrightarrow> contains a c"
  by (auto simp: contains_def)

lemma contains_no_overlap: "contains b a \<Longrightarrow> \<not> overlaps b c \<Longrightarrow> \<not> overlaps a c"
  by (auto simp: contains_def overlaps_def)

lemma contains_no_overlap2: "contains b a \<Longrightarrow> \<not> overlaps c b \<Longrightarrow> \<not> overlaps c a"
  by (auto simp: contains_def overlaps_def)


lemma packed_refine:
  assumes "packed B (F1 @ fr # F2) P"
    and "contains fr p"
    and "\<forall>n \<in> set N. contains fr n \<and> \<not> overlaps n p"
    and "sorted_wrt (\<lambda>a b. \<not> overlaps a b) N"
  shows "packed B (F1 @ F2 @ N) (P @ [p])"
proof -
  let ?nov = "\<lambda>a b. \<not> overlaps a b"
  from assms(1) have F: "sorted_wrt ?nov (F1 @ fr # F2)" and P: "sorted_wrt ?nov P"
    and FP: "\<forall>f \<in> set (F1 @ fr # F2). \<forall>q \<in> set P. \<not> overlaps f q"
    and FB: "\<forall>f \<in> set (F1 @ fr # F2). contains B f" and PB: "\<forall>q \<in> set P. contains B q"
    by (auto simp: packed_def)
  have frB: "contains B fr" using FB by simp
  have fr_others: "\<not> overlaps fr f" if "f \<in> set F1 \<union> set F2" for f
  proof -
    from F have "(\<forall>f \<in> set F1. \<not> overlaps f fr) \<and> (\<forall>f \<in> set F2. \<not> overlaps fr f)"
      by (auto simp: sorted_wrt_append)
    with that show ?thesis using overlaps_sym by blast
  qed
  have in_fr_others: "\<not> overlaps n f" if "contains fr n" "f \<in> set F1 \<union> set F2"
    for n :: "'z Rect_scheme" and f
    using contains_no_overlap[OF that(1) fr_others[OF that(2)]] .
  have fr_P: "\<not> overlaps fr q" if "q \<in> set P" for q
    using FP that by simp
  have in_fr_P: "\<not> overlaps n q" if "contains fr n" "q \<in> set P" for n :: "'z Rect_scheme" and q
    using contains_no_overlap[OF that(1) fr_P[OF that(2)]] .
  have N_others: "\<not> overlaps f n" if "n \<in> set N" "f \<in> set F1 \<union> set F2" for n f
  proof -
    from that(1) assms(3) have "contains fr n" by blast
    from in_fr_others[OF this that(2)] show ?thesis using overlaps_sym by blast
  qed
  have F12: "sorted_wrt ?nov (F1 @ F2)"
    using F by (auto simp: sorted_wrt_append)
  have 1: "sorted_wrt ?nov (F1 @ F2 @ N)"
  proof -
    have "sorted_wrt ?nov ((F1 @ F2) @ N)"
      unfolding sorted_wrt_append[of _ "F1 @ F2" N]
      using F12 assms(4) N_others by auto
    then show ?thesis by simp
  qed
  have 2: "sorted_wrt ?nov (P @ [p])"
  proof -
    have "\<forall>q \<in> set P. \<not> overlaps q p"
      using in_fr_P[OF assms(2)] overlaps_sym by blast
    with P show ?thesis by (simp add: sorted_wrt_append)
  qed
  have 3: "\<forall>f \<in> set (F1 @ F2 @ N). \<forall>q \<in> set (P @ [p]). \<not> overlaps f q"
  proof (intro ballI)
    fix f q assume f: "f \<in> set (F1 @ F2 @ N)" and q: "q \<in> set (P @ [p])"
    from f consider "f \<in> set F1 \<union> set F2" | "f \<in> set N" by auto
    then show "\<not> overlaps f q"
    proof cases
      case 1
      show ?thesis
      proof (cases "q = p")
        case True
        from in_fr_others[OF assms(2) 1] show ?thesis unfolding True using overlaps_sym by blast
      next
        case False
        with q have "q \<in> set P" by simp
        with FP 1 show ?thesis by auto
      qed
    next
      case 2
      show ?thesis
      proof (cases "q = p")
        case True
        with 2 assms(3) show ?thesis by blast
      next
        case False
        with q have "q \<in> set P" by simp
        moreover from 2 assms(3) have "contains fr f" by blast
        ultimately show ?thesis using in_fr_P by blast
      qed
    qed
  qed
  have 4: "\<forall>f \<in> set (F1 @ F2 @ N). contains B f"
    using FB assms(3) contains_trans[OF frB] by auto
  have 5: "\<forall>q \<in> set (P @ [p]). contains B q"
    using PB contains_trans[OF frB assms(2)] by auto
  from 1 2 3 4 5 show ?thesis by (simp add: packed_def)
qed

section \<open>Naive packer: the scan\<close>








section \<open>Tiered packer: first phase\<close>

lemma packed_delete: "packed B (F1 @ f # F2) P \<Longrightarrow> packed B (F1 @ F2) P"
  by (auto simp: packed_def sorted_wrt_append)

lemma prune_loop_closed:
  assumes "\<And>xs x ys. Q (xs @ x # ys) \<Longrightarrow> Q (xs @ ys)" and "Q (kept @ todo)"
  shows "Q (prune_loop kept todo)"
  using assms(2)
proof (induction todo arbitrary: kept)
  case Nil
  then show ?case by simp
next
  case (Cons r rest)
  show ?case
  proof (cases "list_ex (\<lambda>rj. contains (snd rj) (snd r)) (kept @ rest)")
    case True
    from assms(1)[OF Cons.prems] have "Q (kept @ rest)" .
    from Cons.IH[OF this] True show ?thesis by simp
  next
    case False
    from Cons.prems have "Q ((kept @ [r]) @ rest)" by simp
    from Cons.IH[OF this] False show ?thesis by simp
  qed
qed

lemma chooseBest_loop_Some:
  "chooseBest_loop LW w h frs best = Some r \<Longrightarrow>
     best = Some r \<or>
     (fst r \<in> set frs \<and> w \<le> width (snd (fst r)) \<and> h \<le> height (snd (fst r)))"
proof (induction frs arbitrary: best)
  case Nil
  then show ?case by simp
next
  case (Cons f frs)
  from Cons.prems consider
      (upd) "w \<le> width (snd f)" "h \<le> height (snd f)"
            "chooseBest_loop LW w h frs (Some (f, rectScore LW w h (snd f))) = Some r"
    | (keep) "chooseBest_loop LW w h frs best = Some r"
    by (auto simp: Let_def split: if_splits)
  then show ?case
  proof cases
    case upd
    from Cons.IH[OF upd(3)] upd(1,2) show ?thesis by auto
  next
    case keep
    from Cons.IH[OF keep] show ?thesis by auto
  qed
qed

lemma chooseBestRect_Some:
  assumes "chooseBestRect LW frs w h = Some t"
  shows "t \<in> set frs" "w \<le> width (snd t)" "h \<le> height (snd t)"
proof -
  from assms obtain r where r: "chooseBest_loop LW w h frs None = Some r" and t: "t = fst r"
    by (auto simp: chooseBestRect_def)
  from chooseBest_loop_Some[OF r] t
  show "t \<in> set frs" "w \<le> width (snd t)" "h \<le> height (snd t)" by auto
qed

lemma removeRect_fresh: "k \<notin> fst ` set F1 \<Longrightarrow> removeRect k (F1 @ (k, r) # F2) = F1 @ F2"
  by (induction F1) auto

lemma removeRect_split:
  assumes "distinct (map fst F)" "t \<in> set F"
  obtains F1 F2 where "F = F1 @ t # F2" "removeRect (fst t) F = F1 @ F2"
proof -
  from assms(2) obtain F1 F2 where F: "F = F1 @ t # F2" by (auto dest: split_list)
  with assms(1) have "fst t \<notin> fst ` set F1" by auto
  then have "removeRect (fst t) (F1 @ (fst t, snd t) # F2) = F1 @ F2" by (rule removeRect_fresh)
  with F that show thesis by simp
qed

lemma removeRect_subset: "set (removeRect k F) \<subseteq> set F"
  by (induction F) auto

lemma addFreeRect_fields [simp]:
  "results (addFreeRect r st) = results st" "overflow (addFreeRect r st) = overflow st"
  by (simp_all add: addFreeRect_def)

lemma addFreeRect_inv:
  assumes "phase1_inv B st" "contains B r"
    and "\<forall>f \<in> set (freeRects st). \<not> overlaps (snd f) r"
    and "\<forall>p \<in> set (results st). \<not> overlaps r p"
  shows "phase1_inv B (addFreeRect r st)"
proof (cases "width r \<le> 0 \<or> height r \<le> 0")
  case True
  with assms(1) show ?thesis by (simp add: addFreeRect_def)
next
  case False
  then have eq: "addFreeRect r st =
      st\<lparr>freeRects := freeRects st @ [(nextId st, r)], nextId := Suc (nextId st)\<rparr>"
    by (simp add: addFreeRect_def)
  from assms(1) have d: "distinct (map fst (freeRects st))"
    and lt: "\<forall>f \<in> set (freeRects st). fst f < nextId st"
    and pk: "packed B (map snd (freeRects st)) (results st)"
    and pos: "items_pos (overflow st)" "placed_pos (results st)"
    by (auto simp: phase1_inv_def)
  have "nextId st \<notin> fst ` set (freeRects st)" using lt by auto
  with d have d': "distinct (map fst (freeRects st @ [(nextId st, r)]))" by simp
  have lt': "\<forall>f \<in> set (freeRects st @ [(nextId st, r)]). fst f < Suc (nextId st)"
    using lt by auto
  have pk': "packed B (map snd (freeRects st @ [(nextId st, r)])) (results st)"
    using pk assms(2,3,4) by (auto simp: packed_def sorted_wrt_append)
  from d' lt' pk' pos show ?thesis by (simp add: eq phase1_inv_def)
qed

lemma prune_inv:
  assumes "phase1_inv B st"
  shows "phase1_inv B (st\<lparr>freeRects := pruneFreeRects (freeRects st)\<rparr>)"
proof -
  let ?Q = "\<lambda>l. distinct (map fst l) \<and> (\<forall>f \<in> set l. fst f < nextId st) \<and>
                 packed B (map snd l) (results st)"
  have "?Q (prune_loop [] (freeRects st))"
  proof (rule prune_loop_closed[where Q = ?Q])
    fix xs x ys assume "?Q (xs @ x # ys)"
    then show "?Q (xs @ ys)" using packed_delete[of B "map snd xs" "snd x" "map snd ys"] by auto
  next
    show "?Q ([] @ freeRects st)" using assms by (simp add: phase1_inv_def)
  qed
  with assms show ?thesis by (simp add: phase1_inv_def pruneFreeRects_def)
qed


lemma freeRects_addFreeRect_subset:
  "set (freeRects (addFreeRect r st)) \<subseteq> set (freeRects st) \<union> {(nextId st, r)}"
  by (auto simp: addFreeRect_def)

lemma placeItem_inv:
  assumes inv: "phase1_inv B st" and pos: "0 < pwidth it" "0 < pheight it"
  shows "phase1_inv B (placeItem LW it st)"
proof (cases "chooseBestRect LW (freeRects st) (pwidth it) (pheight it)")
  case None
  with inv pos show ?thesis
    by (simp add: placeItem_def phase1_inv_def items_pos_def)
next
  case (Some t)
  let ?nov = "\<lambda>a b. \<not> overlaps a b"
  define fr where "fr = snd t"
  define w where "w = pwidth it"
  define h where "h = pheight it"
  define p where "p = \<lparr>rx = rx fr, ry = ry fr, width = w, height = h, game = pgame it\<rparr>"
  define right where "right = \<lparr>rx = rx fr + w, ry = ry fr, width = width fr - w, height = h\<rparr>"
  define bottom where "bottom = \<lparr>rx = rx fr, ry = ry fr + h, width = width fr, height = height fr - h\<rparr>"
  from chooseBestRect_Some[OF Some]
  have t: "t \<in> set (freeRects st)" and fit: "w \<le> width fr" "h \<le> height fr"
    by (simp_all add: fr_def w_def h_def)
  from inv have d: "distinct (map fst (freeRects st))"
    and lt: "\<forall>f \<in> set (freeRects st). fst f < nextId st"
    and pk: "packed B (map snd (freeRects st)) (results st)"
    and ipos: "items_pos (overflow st)" and ppos: "placed_pos (results st)"
    by (auto simp: phase1_inv_def)
  from removeRect_split[OF d t] obtain F1 F2
    where F: "freeRects st = F1 @ t # F2" and rem: "removeRect (fst t) (freeRects st) = F1 @ F2"
    by blast
  have wh: "0 \<le> w" "0 \<le> h" using pos by (simp_all add: w_def h_def)
  have geo: "contains fr p" "contains fr right" "contains fr bottom"
    "\<not> overlaps right p" "\<not> overlaps bottom p" "\<not> overlaps right bottom"
    using wh fit by (auto simp: contains_def overlaps_def p_def right_def bottom_def)
  have pk0: "packed B (map snd F1 @ fr # map snd F2) (results st)"
    using pk by (simp add: F fr_def)
  have big: "packed B (map snd F1 @ map snd F2 @ [right, bottom]) (results st @ [p])"
  proof (rule packed_refine[OF pk0])
    show "contains fr p" by (rule geo(1))
    show "\<forall>n\<in>set [right, bottom]. contains fr n \<and> \<not> overlaps n p" using geo by simp
    show "sorted_wrt ?nov [right, bottom]" using geo by simp
  qed
  define stA where "stA = st\<lparr>results := results st @ [p], freeRects := F1 @ F2\<rparr>"
  have invA: "phase1_inv B stA"
  proof -
    have "distinct (map fst (F1 @ F2))" using d F by auto
    moreover have "\<forall>f \<in> set (F1 @ F2). fst f < nextId st" using lt F by auto
    moreover have "packed B (map snd (F1 @ F2)) (results st @ [p])"
      using big by (auto simp: packed_def sorted_wrt_append)
    moreover have "placed_pos (results st @ [p])"
      using ppos pos by (simp add: placed_pos_def p_def w_def h_def)
    ultimately show ?thesis using ipos by (simp add: phase1_inv_def stA_def)
  qed
  have frA: "freeRects stA = F1 @ F2" and resA: "results stA = results st @ [p]"
    by (simp_all add: stA_def)
  have bigB: "contains B right" "contains B bottom"
    and bigF: "\<forall>f \<in> set (F1 @ F2). \<not> overlaps (snd f) right \<and> \<not> overlaps (snd f) bottom"
    and bigP: "\<forall>q \<in> set (results st @ [p]). \<not> overlaps right q \<and> \<not> overlaps bottom q"
    using big by (auto simp: packed_def sorted_wrt_append)
  define stB where "stB = addFreeRect right stA"
  have invB: "phase1_inv B stB"
    unfolding stB_def
    by (rule addFreeRect_inv[OF invA bigB(1)]) (use bigF bigP in \<open>simp_all add: frA resA\<close>)
  have invC: "phase1_inv B (addFreeRect bottom stB)"
  proof (rule addFreeRect_inv[OF invB bigB(2)])
    show "\<forall>f\<in>set (freeRects stB). \<not> overlaps (snd f) bottom"
    proof
      fix f assume "f \<in> set (freeRects stB)"
      with freeRects_addFreeRect_subset[of right stA]
      have "f \<in> set (F1 @ F2) \<or> snd f = right" by (auto simp: stB_def frA)
      with bigF geo(6) show "\<not> overlaps (snd f) bottom" by auto
    qed
    show "\<forall>q\<in>set (results stB). \<not> overlaps bottom q"
      using bigP by (simp add: stB_def resA)
  qed
  have "placeItem LW it st =
      (addFreeRect bottom stB)\<lparr>freeRects := pruneFreeRects (freeRects (addFreeRect bottom stB))\<rparr>"
    using Some rem
    by (simp add: placeItem_def splitFreeRect_def Let_def stB_def stA_def fr_def w_def h_def
        p_def right_def bottom_def)
  with prune_inv[OF invC] show ?thesis by simp
qed

lemma fold_placeItem_inv:
  assumes "phase1_inv B st" "items_pos items"
  shows "phase1_inv B (fold (placeItem LW) items st)"
  using assms
proof (induction items arbitrary: st)
  case Nil
  then show ?case by simp
next
  case (Cons it items)
  from Cons.prems have "phase1_inv B (placeItem LW it st)"
    by (intro placeItem_inv) (auto simp: items_pos_def)
  moreover from Cons.prems(2) have "items_pos items" by (simp add: items_pos_def)
  ultimately show ?case using Cons.IH by simp
qed

section \<open>Tiered packer: second phase\<close>

lemma findNarrowest_loop_Some:
  "findNarrowest_loop sw rh its i found = Some r \<Longrightarrow>
     found = Some r \<or>
     (\<exists>k < length its. fst r = i + k \<and> pwidth (its ! k) \<le> sw \<and> pheight (its ! k) \<le> rh \<and>
        snd r = pwidth (its ! k))"
proof (induction its arbitrary: i found)
  case Nil
  then show ?case by simp
next
  case (Cons a its)
  from Cons.prems consider
      (upd) "pwidth a \<le> sw" "pheight a \<le> rh"
            "findNarrowest_loop sw rh its (Suc i) (Some (i, pwidth a)) = Some r"
    | (keep) "findNarrowest_loop sw rh its (Suc i) found = Some r"
    by (auto split: if_splits)
  then show ?case
  proof cases
    case upd
    from Cons.IH[OF upd(3)] show ?thesis
    proof
      assume "Some (i, pwidth a) = Some r"
      with upd(1,2) show ?thesis by (intro disjI2 exI[of _ 0]) auto
    next
      assume "\<exists>k<length its. fst r = Suc i + k \<and> pwidth (its ! k) \<le> sw \<and>
                pheight (its ! k) \<le> rh \<and> snd r = pwidth (its ! k)"
      then obtain k where "k < length its" "fst r = Suc i + k" "pwidth (its ! k) \<le> sw"
        "pheight (its ! k) \<le> rh" "snd r = pwidth (its ! k)" by blast
      then show ?thesis by (intro disjI2 exI[of _ "Suc k"]) simp
    qed
  next
    case keep
    from Cons.IH[OF keep] show ?thesis
    proof
      assume "found = Some r" then show ?thesis by simp
    next
      assume "\<exists>k<length its. fst r = Suc i + k \<and> pwidth (its ! k) \<le> sw \<and>
                pheight (its ! k) \<le> rh \<and> snd r = pwidth (its ! k)"
      then obtain k where "k < length its" "fst r = Suc i + k" "pwidth (its ! k) \<le> sw"
        "pheight (its ! k) \<le> rh" "snd r = pwidth (its ! k)" by blast
      then show ?thesis by (intro disjI2 exI[of _ "Suc k"]) simp
    qed
  qed
qed

lemma findNarrowest_found:
  assumes "findNarrowest_loop sw rh its 0 None = Some found"
  shows "fst found < length its" "pwidth (its ! fst found) \<le> sw" "pheight (its ! fst found) \<le> rh"
  using findNarrowest_loop_Some[OF assms] by auto

lemma items_pos_remove: "items_pos its \<Longrightarrow> items_pos (take k its @ drop (Suc k) its)"
  by (auto simp: items_pos_def dest: in_set_takeD in_set_dropD)

lemma row_step:
  assumes ok: "row_ok P0 rect rh s"
    and f: "findNarrowest_loop (spaceW s) rh (remainingAsc s) 0 None = Some found"
  defines "it \<equiv> remainingAsc s ! fst found"
  defines "s' \<equiv> \<lparr>localX = localX s + pwidth it,
                 spaceW = spaceW s - pwidth it,
                 rowMaxH = max (rowMaxH s) (pheight it),
                 rowPlaced = Suc (rowPlaced s),
                 remainingAsc = take (fst found) (remainingAsc s) @ drop (Suc (fst found)) (remainingAsc s),
                 rowResults = rowResults s @
                   [\<lparr>rx = localX s, ry = ry rect, width = pwidth it, height = pheight it,
                     game = pgame it\<rparr>]\<rparr>"
  shows "row_ok P0 rect rh s'"
proof -
  let ?nov = "\<lambda>a b. \<not> overlaps a b"
  define p where "p = \<lparr>rx = localX s, ry = ry rect, width = pwidth it, height = pheight it,
                     game = pgame it\<rparr>"
  from findNarrowest_found[OF f]
  have k: "fst found < length (remainingAsc s)" and fit: "pwidth it \<le> spaceW s" "pheight it \<le> rh"
    by (simp_all add: it_def)
  from ok have ipos: "items_pos (remainingAsc s)" and lx: "rx rect \<le> localX s"
    and edge: "localX s + spaceW s = rx rect + width rect"
    and mh: "0 \<le> rowMaxH s" "rowMaxH s \<le> rh"
    by (simp_all add: row_ok_def)
  from ok obtain new where new: "rowResults s = P0 @ new" "length new = rowPlaced s"
    "sorted_wrt ?nov new"
    and each: "\<forall>q \<in> set new. ry q = ry rect \<and> rx rect \<le> rx q \<and> rx q + width q \<le> localX s \<and>
           rx q + width q \<le> rx rect + width rect \<and> 0 < width q \<and> 0 < height q \<and>
           height q \<le> rowMaxH s"
    unfolding row_ok_def by blast
  from ipos k have pos: "0 < pwidth it" "0 < pheight it"
    by (auto simp: items_pos_def it_def)
  have 1: "items_pos (remainingAsc s')"
    using items_pos_remove[OF ipos] by (simp add: s'_def)
  have 2: "rx rect \<le> localX s'" "localX s' + spaceW s' = rx rect + width rect"
    "0 \<le> rowMaxH s'" "rowMaxH s' \<le> rh"
    using lx edge mh fit pos by (simp_all add: s'_def)
  have 3: "rowResults s' = P0 @ (new @ [p])" "length (new @ [p]) = rowPlaced s'"
    using new by (simp_all add: s'_def p_def)
  have "\<forall>q \<in> set new. \<not> overlaps q p"
    using each by (auto simp: overlaps_def p_def)
  with new(3) have 4: "sorted_wrt ?nov (new @ [p])"
    by (simp add: sorted_wrt_append)
  have 5: "\<forall>q \<in> set (new @ [p]). ry q = ry rect \<and> rx rect \<le> rx q \<and> rx q + width q \<le> localX s' \<and>
           rx q + width q \<le> rx rect + width rect \<and> 0 < width q \<and> 0 < height q \<and>
           height q \<le> rowMaxH s'"
  proof
    fix q assume "q \<in> set (new @ [p])"
    then consider "q \<in> set new" | "q = p" by auto
    then show "ry q = ry rect \<and> rx rect \<le> rx q \<and> rx q + width q \<le> localX s' \<and>
           rx q + width q \<le> rx rect + width rect \<and> 0 < width q \<and> 0 < height q \<and>
           height q \<le> rowMaxH s'"
    proof cases
      case 1
      with each pos show ?thesis by (auto simp: s'_def)
    next
      case 2
      with lx edge fit pos show ?thesis by (simp add: s'_def p_def)
    qed
  qed
  from 1 2 3 4 5 show ?thesis unfolding row_ok_def by blast
qed

lemma fillRow_ok:
  "row_ok P0 rect rh s \<Longrightarrow> y = ry rect \<Longrightarrow> row_ok P0 rect rh (fillRow b rh y s)"
proof (induction b rh y s rule: fillRow.induct)
  case (1 b rh y s)
  show ?case
  proof (cases "findNarrowest_loop (spaceW s) rh (remainingAsc s) 0 None")
    case None
    then have "fillRow b rh y s = s" by (subst fillRow.simps) simp
    with "1.prems"(1) show ?thesis by simp
  next
    case (Some found)
    define it where "it = remainingAsc s ! fst found"
    define s' where "s' = \<lparr>localX = localX s + pwidth it,
                 spaceW = spaceW s - pwidth it,
                 rowMaxH = max (rowMaxH s) (pheight it),
                 rowPlaced = Suc (rowPlaced s),
                 remainingAsc = take (fst found) (remainingAsc s) @ drop (Suc (fst found)) (remainingAsc s),
                 rowResults = rowResults s @
                   [\<lparr>rx = localX s, ry = y, width = pwidth it, height = pheight it,
                     game = pgame it\<rparr>]\<rparr>"
    have ok': "row_ok P0 rect rh s'"
      using row_step[OF "1.prems"(1) Some] by (simp add: s'_def it_def "1.prems"(2))
    have unf: "fillRow b rh y s = (if spaceW s' < b then s' else fillRow b rh y s')"
      using Some by (subst fillRow.simps) (simp add: Let_def s'_def it_def)
    show ?thesis
    proof (cases "spaceW s' < b")
      case True
      with ok' unf show ?thesis by simp
    next
      case False
      from "1.IH"[OF Some refl it_def s'_def False ok' "1.prems"(2)] unf False
      show ?thesis by simp
    qed
  qed
qed


lemma packed_extend:
  assumes pk: "packed B (fr # T) P0"
    and sub: "contains fr fr'"
    and new: "\<forall>p \<in> set new. contains fr p \<and> \<not> overlaps fr' p"
    and srt: "sorted_wrt (\<lambda>a b. \<not> overlaps a b) new"
  shows "packed B (fr' # T) (P0 @ new)"
proof -
  let ?nov = "\<lambda>a b. \<not> overlaps a b"
  from pk have T: "sorted_wrt ?nov T" and frT: "\<forall>t \<in> set T. \<not> overlaps fr t"
    and P0: "sorted_wrt ?nov P0" and frP: "\<forall>q \<in> set P0. \<not> overlaps fr q"
    and TP: "\<forall>t \<in> set T. \<forall>q \<in> set P0. \<not> overlaps t q"
    and frB: "contains B fr" and TB: "\<forall>t \<in> set T. contains B t"
    and PB: "\<forall>q \<in> set P0. contains B q"
    by (auto simp: packed_def)
  have in_T: "\<not> overlaps n t" if "contains fr n" "t \<in> set T" for n :: "'z Rect_scheme" and t
    using contains_no_overlap[OF that(1)] frT that(2) by blast
  have in_P: "\<not> overlaps n q" if "contains fr n" "q \<in> set P0" for n :: "'z Rect_scheme" and q
    using contains_no_overlap[OF that(1)] frP that(2) by blast
  have 1: "sorted_wrt ?nov (fr' # T)"
    using T in_T[OF sub] by simp
  have "\<forall>q \<in> set P0. \<forall>p \<in> set new. \<not> overlaps q p"
    using new in_P overlaps_sym by blast
  with P0 srt have 2: "sorted_wrt ?nov (P0 @ new)"
    by (simp add: sorted_wrt_append)
  have 3: "\<forall>f \<in> set (fr' # T). \<forall>p \<in> set (P0 @ new). \<not> overlaps f p"
  proof (intro ballI)
    fix f p assume f: "f \<in> set (fr' # T)" and p: "p \<in> set (P0 @ new)"
    from p consider "p \<in> set P0" | "p \<in> set new" by auto
    then show "\<not> overlaps f p"
    proof cases
      case 1
      from f have "f = fr' \<or> f \<in> set T" by simp
      then show ?thesis
      proof
        assume "f = fr'" with in_P[OF sub 1] show ?thesis by simp
      next
        assume "f \<in> set T" with TP 1 show ?thesis by blast
      qed
    next
      case 2
      from f have "f = fr' \<or> f \<in> set T" by simp
      then show ?thesis
      proof
        assume "f = fr'" with new 2 show ?thesis by blast
      next
        assume "f \<in> set T"
        moreover from new 2 have "contains fr p" by blast
        ultimately have "\<not> overlaps p f" by (rule in_T[rotated])
        then show ?thesis using overlaps_sym by blast
      qed
    qed
  qed
  have 4: "\<forall>f \<in> set (fr' # T). contains B f"
    using TB contains_trans[OF frB sub] by simp
  have 5: "\<forall>p \<in> set (P0 @ new). contains B p"
    using PB new contains_trans[OF frB] by auto
  from 1 2 3 4 5 show ?thesis by (simp add: packed_def)
qed

lemma fillRows_inv:
  "shelf_inv B T rect st \<Longrightarrow>
     shelf_inv B T (fst (fillRows bw bh rect st)) (snd (fillRows bw bh rect st))"
proof (induction bw bh rect st rule: fillRows.induct)
  case (1 bw bh rect st)
  let ?nov = "\<lambda>a b. \<not> overlaps a b"
  define candidates where
    "candidates = filter (\<lambda>it. pheight it \<le> height rect \<and> pwidth it \<le> width rect) (overflow st)"
  define rowHeight where "rowHeight = Min (set (map pheight candidates))"
  define row where "row = fillRow bw rowHeight (ry rect)
                        \<lparr>localX = rx rect, spaceW = width rect, rowMaxH = 0, rowPlaced = 0,
                         remainingAsc = overflow st, rowResults = results st\<rparr>"
  define st1 where "st1 = st\<lparr>results := rowResults row, overflow := remainingAsc row\<rparr>"
  define st2 where "st2 = (if spaceW row > 0
                             then addFreeRect \<lparr>rx = localX row, ry = ry rect, width = spaceW row,
                                               height = rowMaxH row\<rparr> st1
                             else st1)"
  define rect' where "rect' = rect\<lparr>ry := ry rect + rowMaxH row, height := height rect - rowMaxH row\<rparr>"
  define st3 where "st3 = st2\<lparr>freeRects := pruneFreeRects (freeRects st2)\<rparr>"
  from "1.prems" have pk: "packed B (rect # T) (results st)"
    and ipos: "items_pos (overflow st)" and ppos: "placed_pos (results st)"
    by (simp_all add: shelf_inv_def)
  show ?case
  proof (cases "bh \<le> height rect \<and> candidates \<noteq> []")
    case False
    then have "fillRows bw bh rect st = (rect, st)"
      by (subst fillRows.simps) (auto simp: Let_def candidates_def)
    with "1.prems" show ?thesis by simp
  next
    case True
    then have ge: "bh \<le> height rect" and cne: "candidates \<noteq> []" by simp_all
    have "rowHeight \<in> set (map pheight candidates)"
      unfolding rowHeight_def using cne by (intro Min_in) simp_all
    then obtain c where c: "c \<in> set candidates" "rowHeight = pheight c" by auto
    then have rh: "0 < rowHeight" "rowHeight \<le> height rect"
      using ipos by (auto simp: candidates_def items_pos_def)
    have "row_ok (results st) rect rowHeight
            \<lparr>localX = rx rect, spaceW = width rect, rowMaxH = 0, rowPlaced = 0,
             remainingAsc = overflow st, rowResults = results st\<rparr>"
      using ipos rh by (simp add: row_ok_def)
    then have rok: "row_ok (results st) rect rowHeight row"
      unfolding row_def by (rule fillRow_ok) simp
    then obtain new where new: "rowResults row = results st @ new" "length new = rowPlaced row"
      "sorted_wrt ?nov new"
      and each: "\<forall>p \<in> set new. ry p = ry rect \<and> rx rect \<le> rx p \<and> rx p + width p \<le> localX row \<and>
           rx p + width p \<le> rx rect + width rect \<and> 0 < width p \<and> 0 < height p \<and>
           height p \<le> rowMaxH row"
      unfolding row_ok_def by blast
    from rok have ipos': "items_pos (remainingAsc row)"
      and mh: "0 \<le> rowMaxH row" "rowMaxH row \<le> rowHeight"
      by (simp_all add: row_ok_def)
    have ppos': "placed_pos (rowResults row)"
      using ppos each by (auto simp: placed_pos_def new(1))
    show ?thesis
    proof (cases "rowPlaced row = 0")
      case True
      then have eq: "fillRows bw bh rect st = (rect, st1)"
        using ge cne
        unfolding st1_def row_def rowHeight_def candidates_def
        by (subst fillRows.simps) (simp add: Let_def)
      from True new have "rowResults row = results st" by simp
      with pk ipos' ppos show ?thesis by (simp add: eq shelf_inv_def st1_def)
    next
      case False
      then have eq: "fillRows bw bh rect st = fillRows bw bh rect' st3"
        using ge cne
        unfolding st3_def rect'_def st2_def st1_def row_def rowHeight_def candidates_def
        by (subst fillRows.simps) (simp add: Let_def)
      have res3: "results st3 = rowResults row" and ov3: "overflow st3 = remainingAsc row"
        by (simp_all add: st3_def st2_def st1_def)
      have "packed B (rect' # T) (results st @ new)"
      proof (rule packed_extend[OF pk _ _ new(3)])
        show "contains rect rect'"
          using mh rh by (simp add: contains_def rect'_def)
        show "\<forall>p\<in>set new. contains rect p \<and> \<not> overlaps rect' p"
          using each mh rh by (auto simp: contains_def overlaps_def rect'_def)
      qed
      then have "shelf_inv B T rect' st3"
        using ipos' ppos' by (simp add: shelf_inv_def res3 ov3 new(1))
      from "1.IH"[OF ge candidates_def cne rowHeight_def row_def st1_def False st2_def rect'_def
          st3_def this]
      show ?thesis by (simp add: eq)
    qed
  qed
qed


lemma fillRectWithShelf_inv:
  assumes "shelf_inv B T (snd fr) st"
  shows "packed B T (results (fillRectWithShelf bw bh fr st))"
    and "items_pos (overflow (fillRectWithShelf bw bh fr st))"
    and "placed_pos (results (fillRectWithShelf bw bh fr st))"
proof -
  define st1 where "st1 = st\<lparr>freeRects := removeRect (fst fr) (freeRects st)\<rparr>"
  define filled where "filled = fillRows bw bh (snd fr) st1"
  from assms have "shelf_inv B T (snd fr) st1"
    by (simp add: shelf_inv_def st1_def)
  then have inv: "shelf_inv B T (fst filled) (snd filled)"
    unfolding filled_def by (rule fillRows_inv)
  then have "packed B ([] @ fst filled # T) (results (snd filled))"
    by (simp add: shelf_inv_def)
  then have pk: "packed B T (results (snd filled))"
    using packed_delete by fastforce
  have res: "results (fillRectWithShelf bw bh fr st) = results (snd filled)"
    and ov: "overflow (fillRectWithShelf bw bh fr st) = overflow (snd filled)"
    by (simp_all add: fillRectWithShelf_def Let_def st1_def filled_def)
  from pk inv res ov
  show "packed B T (results (fillRectWithShelf bw bh fr st))"
    and "items_pos (overflow (fillRectWithShelf bw bh fr st))"
    and "placed_pos (results (fillRectWithShelf bw bh fr st))"
    by (simp_all add: shelf_inv_def)
qed

lemma fold_fillRectWithShelf_inv:
  assumes "packed B (map snd S) (results st)" "items_pos (overflow st)" "placed_pos (results st)"
  shows "packed B [] (results (fold (fillRectWithShelf bw bh) S st)) \<and>
         items_pos (overflow (fold (fillRectWithShelf bw bh) S st)) \<and>
         placed_pos (results (fold (fillRectWithShelf bw bh) S st))"
  using assms
proof (induction S arbitrary: st)
  case Nil
  then show ?case by simp
next
  case (Cons fr S)
  then have "shelf_inv B (map snd S) (snd fr) st"
    by (simp add: shelf_inv_def)
  from fillRectWithShelf_inv[OF this, of bw bh] Cons.IH[of "fillRectWithShelf bw bh fr st"]
  show ?case by simp
qed

lemma sorted_wrt_insort_key_sym:
  assumes "\<And>a b. R a b \<Longrightarrow> R b a"
  shows "sorted_wrt R (insort_key f a xs) \<longleftrightarrow> sorted_wrt R (a # xs)"
proof (induction xs)
  case Nil
  then show ?case by simp
next
  case (Cons b xs)
  then show ?case using assms by (auto simp: set_insort_key)
qed

lemma sorted_wrt_sort_key_sym:
  assumes "\<And>a b. R a b \<Longrightarrow> R b a"
  shows "sorted_wrt R (sort_key f xs) \<longleftrightarrow> sorted_wrt R xs"
proof (induction xs)
  case Nil
  then show ?case by simp
next
  case (Cons a xs)
  have "sort_key f (a # xs) = insort_key f a (sort_key f xs)"
    by (simp add: sort_key_def)
  with Cons sorted_wrt_insort_key_sym[of R f a "sort_key f xs", OF assms] show ?case
    by simp
qed

lemma packed_sort_key:
  fixes F :: "(nat \<times> Rect) list"
  assumes "packed B (map snd F) P"
  shows "packed B (map snd (sort_key k F)) P"
proof -
  let ?R = "\<lambda>a b :: nat \<times> Rect. \<not> overlaps (snd a) (snd b)"
  have sym: "\<And>a b. ?R a b \<Longrightarrow> ?R b a" using overlaps_sym by blast
  from assms have "sorted_wrt ?R F" by (simp add: packed_def sorted_wrt_map)
  then have "sorted_wrt ?R (sort_key k F)"
    using sorted_wrt_sort_key_sym[of ?R k F, OF sym] by simp
  then have "sorted_wrt (\<lambda>a b. \<not> overlaps a b) (map snd (sort_key k F))"
    by (simp add: sorted_wrt_map)
  with assms show ?thesis by (simp add: packed_def)
qed

lemma shelfPhase_inv:
  assumes "phase1_inv B st"
  shows "packed B [] (results (shelfPhase bw bh st)) \<and>
         items_pos (overflow (shelfPhase bw bh st)) \<and>
         placed_pos (results (shelfPhase bw bh st))"
proof -
  define S where "S = sort_key (\<lambda>fr. (ry (snd fr), rx (snd fr))) (freeRects st)"
  define st1 where "st1 = st\<lparr>freeRects := S, overflow := sort_key mult (overflow st)\<rparr>"
  from assms have pk: "packed B (map snd (freeRects st)) (results st)"
    and ipos: "items_pos (overflow st)" and ppos: "placed_pos (results st)"
    by (simp_all add: phase1_inv_def)
  have 1: "packed B (map snd S) (results st1)"
    using packed_sort_key[OF pk] by (simp add: S_def st1_def)
  have 2: "items_pos (overflow st1)"
    using ipos by (simp add: st1_def items_pos_def)
  have 3: "placed_pos (results st1)"
    using ppos by (simp add: st1_def)
  have "shelfPhase bw bh st = fold (fillRectWithShelf bw bh) S st1"
    by (simp add: shelfPhase_def Let_def S_def st1_def)
  with fold_fillRectWithShelf_inv[OF 1 2 3, of bw bh] show ?thesis by simp
qed

section \<open>Tiered packer: the whole layout\<close>

lemma tierMult_ge1: "1 \<le> tierMult sqrtMax g"
  unfolding tierMult_def Let_def by (simp only: le_max_iff_disj split: if_split) simp

lemma unitCell_ge1: "1 \<le> fst (unitCell LW LH items) \<and> 1 \<le> snd (unitCell LW LH items)"
proof -
  have "(1::real) \<le> real_of_int (max 1 z)" for z by simp
  then show ?thesis unfolding unitCell_def Let_def fst_conv snd_conv by blast
qed

lemma prepare_pos:
  assumes "\<forall>it \<in> set items. 1 \<le> snd it" "1 \<le> bw" "1 \<le> bh"
  shows "items_pos (map (prepare sine bw bh) items)"
proof -
  have "0 < real_of_int m * b" if "1 \<le> m" "1 \<le> b" for m :: int and b :: real
    using that by (intro mult_pos_pos) simp_all
  with assms show ?thesis by (auto simp: items_pos_def prepare_def)
qed

text \<open>The region the tiered packer fills: the canvas below the header strip.\<close>

lemma layoutState_inv:
  fixes canvasDimensions :: "real \<times> real"
  defines "LH \<equiv> snd canvasDimensions"
  defines "B \<equiv> \<lparr>rx = 0, ry = headerInfoHeight LH, width = fst canvasDimensions,
                 height = max 0 (LH - headerInfoHeight LH)\<rparr>"
  shows "packed B [] (results (layoutState sine canvasDimensions games)) \<and>
         items_pos (overflow (layoutState sine canvasDimensions games)) \<and>
         placed_pos (results (layoutState sine canvasDimensions games))"
proof -
  define LW where "LW = fst canvasDimensions"
  define sorted where "sorted = sort_key (\<lambda>g. - playtime_forever g) games"
  define sqrtMax where
    "sqrtMax = sqrt (real_of_int (fold max (map (\<lambda>g. max (playtime_forever g) 1) sorted) 1))"
  define items where "items = sort_key (\<lambda>it. (- playtime_forever (fst it), - snd it))
                    (map (\<lambda>g. (g, tierMult sqrtMax g)) sorted)"
  define bw where "bw = fst (unitCell LW LH items)"
  define bh where "bh = snd (unitCell LW LH items)"
  define st0 where "st0 = \<lparr>freeRects = [(0::nat, B)], nextId = 1, results = [], overflow = []\<rparr>"
  define remainingDesc where "remainingDesc =
            sort_key (\<lambda>a. - real_of_int (mult a) + (rnd a - 0.5) * RANDOM_JITTER)
              (map (prepare sine bw bh) items)"
  have eq: "layoutState sine canvasDimensions games =
      shelfPhase bw bh (fold (placeItem LW) remainingDesc st0)"
    unfolding layoutState_def Let_def remainingDesc_def st0_def B_def bh_def bw_def items_def
      sqrtMax_def sorted_def LW_def LH_def ..
  have "\<forall>it \<in> set items. 1 \<le> snd it"
    by (auto simp: items_def tierMult_ge1)
  moreover have "1 \<le> bw" "1 \<le> bh"
    using unitCell_ge1[of LW LH items] by (simp_all add: bw_def bh_def)
  ultimately have "items_pos (map (prepare sine bw bh) items)"
    by (rule prepare_pos)
  then have ipos: "items_pos remainingDesc"
    by (simp add: remainingDesc_def items_pos_def)
  have "phase1_inv B st0"
    by (simp add: phase1_inv_def st0_def packed_def contains_refl items_pos_def placed_pos_def)
  from shelfPhase_inv[OF fold_placeItem_inv[OF this ipos]] show ?thesis
    by (simp add: eq)
qed

section \<open>No overlap, in bounds, below the header\<close>

lemma layoutGames_packed:
  "packed \<lparr>rx = 0, ry = headerInfoHeight H, width = W, height = max 0 (H - headerInfoHeight H)\<rparr> []
     (layoutGames sine (W, H) games) \<and> placed_pos (layoutGames sine (W, H) games)"
proof (cases "games = []")
  case True
  then show ?thesis by (simp add: layoutGames_def packed_def placed_pos_def)
next
  case False
  with layoutState_inv[of "(W, H)" sine games] show ?thesis
    by (simp add: layoutGames_def)
qed




text \<open>
  Claim C10. In the tiered layout every placed rectangle starts at or below the header
  strip: \<open>y \<ge> headerInfoHeight\<close>, where \<open>headerInfoHeight\<close> is
  \<^verbatim>\<open>max(60, round(min(0.06 * canvasHeight, 100)))\<close>. The initial free rectangle of
  \<open>layoutState\<close> starts at that height.
\<close>

theorem C10_below_header:
  "\<forall>p \<in> set (layoutGames sine (W, H) games).
     ry p \<ge> real_of_int (max 60 (round (min (0.06 * H) 100)))"
proof
  fix p assume "p \<in> set (layoutGames sine (W, H) games)"
  with layoutGames_packed[of H W sine games]
  have "contains \<lparr>rx = 0, ry = headerInfoHeight H, width = W,
                   height = max 0 (H - headerInfoHeight H)\<rparr> p"
    by (auto simp: packed_def)
  then have "headerInfoHeight H \<le> ry p" by (simp add: contains_def)
  then show "ry p \<ge> real_of_int (max 60 (round (min (0.06 * H) 100)))"
    by (simp add: headerInfoHeight_def mult.commute)
qed

section \<open>Conservation of the games\<close>

lemma accounted_freeRects [simp]:
  "accounted (st\<lparr>freeRects := F\<rparr>) = accounted st"
  "accounted (addFreeRect r st) = accounted st"
  by (simp_all add: accounted_def)

lemma accounted_splitFreeRect [simp]: "accounted (splitFreeRect t p st) = accounted st"
  by (simp add: splitFreeRect_def Let_def)

lemma accounted_placeItem: "accounted (placeItem LW it st) = add_mset (pgame it) (accounted st)"
proof (cases "chooseBestRect LW (freeRects st) (pwidth it) (pheight it)")
  case None
  then show ?thesis by (simp add: placeItem_def accounted_def)
next
  case (Some t)
  then show ?thesis by (simp add: placeItem_def Let_def) (simp add: accounted_def)
qed

lemma accounted_fold_placeItem:
  "accounted (fold (placeItem LW) items st) = accounted st + mset (map pgame items)"
  by (induction items arbitrary: st) (simp_all add: accounted_placeItem)

lemma mset_remove_nth:
  "k < length xs \<Longrightarrow> add_mset (xs ! k) (mset (take k xs @ drop (Suc k) xs)) = mset xs"
proof -
  assume "k < length xs"
  then have "xs = take k xs @ xs ! k # drop (Suc k) xs" by (rule id_take_nth_drop)
  then have "mset xs = mset (take k xs @ xs ! k # drop (Suc k) xs)" by simp
  then show ?thesis by simp
qed

lemma fillRow_accounted:
  "mset (map game (rowResults (fillRow b rh y s))) + mset (map pgame (remainingAsc (fillRow b rh y s)))
     = mset (map game (rowResults s)) + mset (map pgame (remainingAsc s))"
proof (induction b rh y s rule: fillRow.induct)
  case (1 b rh y s)
  show ?case
  proof (cases "findNarrowest_loop (spaceW s) rh (remainingAsc s) 0 None")
    case None
    then have "fillRow b rh y s = s" by (subst fillRow.simps) simp
    then show ?thesis by simp
  next
    case (Some found)
    define it where "it = remainingAsc s ! fst found"
    define s' where "s' = \<lparr>localX = localX s + pwidth it,
                 spaceW = spaceW s - pwidth it,
                 rowMaxH = max (rowMaxH s) (pheight it),
                 rowPlaced = Suc (rowPlaced s),
                 remainingAsc = take (fst found) (remainingAsc s) @ drop (Suc (fst found)) (remainingAsc s),
                 rowResults = rowResults s @
                   [\<lparr>rx = localX s, ry = y, width = pwidth it, height = pheight it,
                     game = pgame it\<rparr>]\<rparr>"
    from findNarrowest_found(1)[OF Some] have k: "fst found < length (map pgame (remainingAsc s))"
      by simp
    have "mset (map pgame (remainingAsc s)) =
            add_mset (pgame it) (mset (map pgame (remainingAsc s')))"
      using mset_remove_nth[OF k] k
      by (simp add: s'_def it_def take_map drop_map)
    then have step: "mset (map game (rowResults s')) + mset (map pgame (remainingAsc s'))
        = mset (map game (rowResults s)) + mset (map pgame (remainingAsc s))"
      by (simp add: s'_def)
    have unf: "fillRow b rh y s = (if spaceW s' < b then s' else fillRow b rh y s')"
      using Some by (subst fillRow.simps) (simp add: Let_def s'_def it_def)
    show ?thesis
    proof (cases "spaceW s' < b")
      case True
      with step unf show ?thesis by simp
    next
      case False
      from "1.IH"[OF Some refl it_def s'_def False] step unf False show ?thesis by simp
    qed
  qed
qed

lemma fillRows_accounted: "accounted (snd (fillRows bw bh rect st)) = accounted st"
proof (induction bw bh rect st rule: fillRows.induct)
  case (1 bw bh rect st)
  define candidates where
    "candidates = filter (\<lambda>it. pheight it \<le> height rect \<and> pwidth it \<le> width rect) (overflow st)"
  define rowHeight where "rowHeight = Min (set (map pheight candidates))"
  define row where "row = fillRow bw rowHeight (ry rect)
                        \<lparr>localX = rx rect, spaceW = width rect, rowMaxH = 0, rowPlaced = 0,
                         remainingAsc = overflow st, rowResults = results st\<rparr>"
  define st1 where "st1 = st\<lparr>results := rowResults row, overflow := remainingAsc row\<rparr>"
  define st2 where "st2 = (if spaceW row > 0
                             then addFreeRect \<lparr>rx = localX row, ry = ry rect, width = spaceW row,
                                               height = rowMaxH row\<rparr> st1
                             else st1)"
  define rect' where "rect' = rect\<lparr>ry := ry rect + rowMaxH row, height := height rect - rowMaxH row\<rparr>"
  define st3 where "st3 = st2\<lparr>freeRects := pruneFreeRects (freeRects st2)\<rparr>"
  have acc1: "accounted st1 = accounted st"
    using fillRow_accounted[of bw rowHeight "ry rect"
        "\<lparr>localX = rx rect, spaceW = width rect, rowMaxH = 0, rowPlaced = 0,
          remainingAsc = overflow st, rowResults = results st\<rparr>"]
    by (simp add: accounted_def st1_def row_def)
  have acc3: "accounted st3 = accounted st"
    using acc1 by (simp add: st3_def st2_def)
  show ?case
  proof (cases "bh \<le> height rect \<and> candidates \<noteq> []")
    case False
    then have "fillRows bw bh rect st = (rect, st)"
      by (subst fillRows.simps) (auto simp: Let_def candidates_def)
    then show ?thesis by simp
  next
    case True
    then have ge: "bh \<le> height rect" and cne: "candidates \<noteq> []" by simp_all
    show ?thesis
    proof (cases "rowPlaced row = 0")
      case True
      then have "fillRows bw bh rect st = (rect, st1)"
        using ge cne
        unfolding st1_def row_def rowHeight_def candidates_def
        by (subst fillRows.simps) (simp add: Let_def)
      with acc1 show ?thesis by simp
    next
      case False
      then have eq: "fillRows bw bh rect st = fillRows bw bh rect' st3"
        using ge cne
        unfolding st3_def rect'_def st2_def st1_def row_def rowHeight_def candidates_def
        by (subst fillRows.simps) (simp add: Let_def)
      from "1.IH"[OF ge candidates_def cne rowHeight_def row_def st1_def False st2_def rect'_def
          st3_def] acc3 eq
      show ?thesis by simp
    qed
  qed
qed

lemma accounted_fillRectWithShelf [simp]:
  "accounted (fillRectWithShelf bw bh fr st) = accounted st"
  using fillRows_accounted[of bw bh "snd fr" "st\<lparr>freeRects := removeRect (fst fr) (freeRects st)\<rparr>"]
  by (simp add: fillRectWithShelf_def Let_def)

lemma accounted_fold_fillRectWithShelf [simp]:
  "accounted (fold (fillRectWithShelf bw bh) S st) = accounted st"
  by (induction S arbitrary: st) simp_all

lemma accounted_shelfPhase [simp]: "accounted (shelfPhase bw bh st) = accounted st"
  by (simp add: shelfPhase_def Let_def) (simp add: accounted_def)

lemma accounted_layoutState: "accounted (layoutState sine canvasDimensions games) = mset games"
proof -
  have pg: "map pgame (map (prepare sine bw bh) items) = map fst items" for bw bh items
    by (simp add: prepare_def)
  have "mset (map pgame (sort_key k (map (prepare sine bw bh) (sort_key k' (map (\<lambda>g. (g, m g)) (sort_key k'' games))))))
          = mset games" for k k' k'' bw bh and m :: "SteamGame \<Rightarrow> int"
  proof -
    have "mset (map pgame (sort_key k (map (prepare sine bw bh) (sort_key k' (map (\<lambda>g. (g, m g)) (sort_key k'' games))))))
        = image_mset pgame (mset (map (prepare sine bw bh) (sort_key k' (map (\<lambda>g. (g, m g)) (sort_key k'' games)))))"
      by simp
    also have "\<dots> = mset (map fst (sort_key k' (map (\<lambda>g. (g, m g)) (sort_key k'' games))))"
      using pg by (metis mset_map)
    also have "\<dots> = image_mset fst (mset (map (\<lambda>g. (g, m g)) (sort_key k'' games)))"
      by simp
    also have "\<dots> = mset games"
      by (simp add: image_mset.compositionality comp_def)
    finally show ?thesis .
  qed
  then show ?thesis
    unfolding layoutState_def Let_def
    by (simp add: accounted_fold_placeItem) (simp add: accounted_def)
qed

section \<open>Conservation, determinism and the size model\<close>

text \<open>
  Claim C8. The games the tiered layout returns (placed by the first phase or by the shelf
  fill-in pass) together with the games it drops are, as a multiset, the games it was
  given. So are their ids; and when the ids of the input are distinct, so are the ids of
  the placed list.
\<close>

theorem C8_conservation:
  "mset (map game (layoutGames sine canvasDimensions games)) +
     mset (droppedGames sine canvasDimensions games) = mset games \<and>
   mset (map (\<lambda>p. appid (game p)) (layoutGames sine canvasDimensions games)) +
     mset (map appid (droppedGames sine canvasDimensions games)) = mset (map appid games) \<and>
   (distinct (map appid games) \<longrightarrow>
      distinct (map (\<lambda>p. appid (game p)) (layoutGames sine canvasDimensions games)))"
proof -
  let ?P = "layoutGames sine canvasDimensions games"
  let ?D = "droppedGames sine canvasDimensions games"
  have 1: "mset (map game ?P) + mset ?D = mset games"
  proof (cases "games = []")
    case True
    then show ?thesis by (simp add: layoutGames_def droppedGames_def)
  next
    case False
    with accounted_layoutState[of sine canvasDimensions games] show ?thesis
      by (simp add: layoutGames_def droppedGames_def accounted_def)
  qed
  have "image_mset appid (mset (map game ?P) + mset ?D) = image_mset appid (mset games)"
    using 1 by simp
  then have 2: "mset (map (\<lambda>p. appid (game p)) ?P) + mset (map appid ?D) = mset (map appid games)"
    by (simp add: image_mset.compositionality comp_def)
  have 3: "distinct (map (\<lambda>p. appid (game p)) ?P)" if d: "distinct (map appid games)"
  proof -
    have "mset (map (\<lambda>p. appid (game p)) ?P @ map appid ?D) = mset (map appid games)"
      using 2 by simp
    from mset_eq_imp_distinct_iff[OF this] d
    have "distinct (map (\<lambda>p. appid (game p)) ?P @ map appid ?D)" by simp
    then show ?thesis by simp
  qed
  from 1 2 3 show ?thesis by blast
qed

text \<open>
  Claim C5. The tiered layout reads \<^verbatim>\<open>Math.sin\<close> only at \<open>appid * RANDOM_SEED\<close> for the
  games of its input. Two runs on the same games and canvas, each with its own sine, return
  the same list whenever the two sines give the same value at those arguments: the jitter
  is a function of the id. The layout has no other input; the naive layout reads no sine
  at all.
\<close>

theorem C5_deterministic:
  assumes "\<forall>g \<in> set games.
             sine1 (real_of_int (appid g) * RANDOM_SEED) = sine2 (real_of_int (appid g) * RANDOM_SEED)"
  shows "layoutGames sine1 canvasDimensions games = layoutGames sine2 canvasDimensions games"
proof -
  define items where "items = sort_key (\<lambda>it. (- playtime_forever (fst it), - snd it))
      (map (\<lambda>g. (g, tierMult
          (sqrt (real_of_int (fold max (map (\<lambda>g. max (playtime_forever g) 1)
             (sort_key (\<lambda>g. - playtime_forever g) games)) 1))) g))
        (sort_key (\<lambda>g. - playtime_forever g) games))"
  have "fst ` set items \<subseteq> set games"
    by (auto simp: items_def)
  then have key: "map (prepare sine1 bw bh) items = map (prepare sine2 bw bh) items" for bw bh
    using assms by (intro map_cong) (auto simp: prepare_def)
  have "layoutState sine1 canvasDimensions games = layoutState sine2 canvasDimensions games"
    unfolding layoutState_def Let_def items_def[symmetric] key ..
  then show ?thesis by (simp add: layoutGames_def)
qed



section \<open>The choice of a free rectangle\<close>

lemma bestFit_loop_None:
  "bestFit_loop g frs i best = None \<longleftrightarrow>
     best = None \<and> (\<forall>fr \<in> set frs. \<not> fitsIn (swidth g) (sheight g) fr)"
proof (induction frs arbitrary: i best)
  case Nil
  then show ?case by simp
next
  case (Cons f frs)
  show ?case
  proof (cases "fitsIn (swidth g) (sheight g) f")
    case False
    then have "bestFit_loop g (f # frs) i best = bestFit_loop g frs (Suc i) best"
      by (auto simp: fitsIn_def)
    with Cons.IH[of "Suc i" best] False show ?thesis by simp
  next
    case True
    then have "\<exists>b. bestFit_loop g (f # frs) i best = bestFit_loop g frs (Suc i) (Some b)"
      by (cases best) (auto simp: fitsIn_def Let_def)
    then obtain b where "bestFit_loop g (f # frs) i best = bestFit_loop g frs (Suc i) (Some b)" ..
    with Cons.IH[of "Suc i" "Some b"] True show ?thesis by simp
  qed
qed

lemma bestFit_loop_first_min:
  assumes "bestFit_loop g frs i best = Some b"
  defines "sc \<equiv> \<lambda>fr. width fr * height fr - swidth g * sheight g"
  defines "ok \<equiv> fitsIn (swidth g) (sheight g)"
  shows "(best = Some b \<and> (\<forall>fr \<in> set frs. ok fr \<longrightarrow> fst b \<le> sc fr)) \<or>
         (\<exists>m < length frs. fst (snd b) = i + m \<and> ok (frs ! m) \<and> fst b = sc (frs ! m) \<and>
            snd (snd b) = \<lparr>rx = rx (frs ! m), ry = ry (frs ! m), width = swidth g, height = sheight g\<rparr> \<and>
            (\<forall>fr \<in> set frs. ok fr \<longrightarrow> fst b \<le> sc fr) \<and>
            (\<forall>fr \<in> set (take m frs). ok fr \<longrightarrow> fst b < sc fr) \<and>
            (\<forall>b0. best = Some b0 \<longrightarrow> fst b < fst b0))"
  using assms(1)
proof (induction frs arbitrary: i best)
  case Nil
  then show ?case by simp
next
  case (Cons f frs)
  let ?new = "(sc f, i, \<lparr>rx = rx f, ry = ry f, width = swidth g, height = sheight g\<rparr>)"
  show ?case
  proof (cases "ok f \<and> (\<forall>b0. best = Some b0 \<longrightarrow> sc f < fst b0)")
    case True
    then have "bestFit_loop g (f # frs) i best = bestFit_loop g frs (Suc i) (Some ?new)"
      by (cases best) (auto simp: ok_def sc_def fitsIn_def Let_def)
    with Cons.prems have rec: "bestFit_loop g frs (Suc i) (Some ?new) = Some b" by simp
    from Cons.IH[OF rec] show ?thesis
    proof (elim disjE conjE exE)
      assume "Some ?new = Some b" and le: "\<forall>fr\<in>set frs. ok fr \<longrightarrow> fst b \<le> sc fr"
      then have b: "b = ?new" by simp
      have "0 < length (f # frs) \<and> fst (snd b) = i + 0 \<and> ok ((f # frs) ! 0) \<and>
            fst b = sc ((f # frs) ! 0) \<and>
            snd (snd b) = \<lparr>rx = rx ((f # frs) ! 0), ry = ry ((f # frs) ! 0), width = swidth g,
                             height = sheight g\<rparr> \<and>
            (\<forall>fr \<in> set (f # frs). ok fr \<longrightarrow> fst b \<le> sc fr) \<and>
            (\<forall>fr \<in> set (take 0 (f # frs)). ok fr \<longrightarrow> fst b < sc fr) \<and>
            (\<forall>b0. best = Some b0 \<longrightarrow> fst b < fst b0)"
        using True le by (simp add: b)
      then show ?thesis by blast
    next
      fix m
      assume m: "m < length frs" "fst (snd b) = Suc i + m" "ok (frs ! m)" "fst b = sc (frs ! m)"
        "snd (snd b) = \<lparr>rx = rx (frs ! m), ry = ry (frs ! m), width = swidth g, height = sheight g\<rparr>"
        "\<forall>fr\<in>set frs. ok fr \<longrightarrow> fst b \<le> sc fr"
        "\<forall>fr\<in>set (take m frs). ok fr \<longrightarrow> fst b < sc fr"
        "\<forall>b0. Some ?new = Some b0 \<longrightarrow> fst b < fst b0"
      then have lt: "fst b < sc f" by simp
      have "Suc m < length (f # frs) \<and> fst (snd b) = i + Suc m \<and> ok ((f # frs) ! Suc m) \<and>
            fst b = sc ((f # frs) ! Suc m) \<and>
            snd (snd b) = \<lparr>rx = rx ((f # frs) ! Suc m), ry = ry ((f # frs) ! Suc m),
                             width = swidth g, height = sheight g\<rparr> \<and>
            (\<forall>fr \<in> set (f # frs). ok fr \<longrightarrow> fst b \<le> sc fr) \<and>
            (\<forall>fr \<in> set (take (Suc m) (f # frs)). ok fr \<longrightarrow> fst b < sc fr) \<and>
            (\<forall>b0. best = Some b0 \<longrightarrow> fst b < fst b0)"
        using m(1-7) lt True by auto
      then show ?thesis by blast
    qed
  next
    case False
    then have "bestFit_loop g (f # frs) i best = bestFit_loop g frs (Suc i) best"
      by (cases best) (auto simp: ok_def sc_def fitsIn_def Let_def)
    with Cons.prems have rec: "bestFit_loop g frs (Suc i) best = Some b" by simp
    from False have f: "ok f \<Longrightarrow> \<exists>b0. best = Some b0 \<and> fst b0 \<le> sc f"
      by (auto simp: not_less)
    from Cons.IH[OF rec] show ?thesis
    proof (elim disjE conjE exE)
      assume "best = Some b" and le: "\<forall>fr\<in>set frs. ok fr \<longrightarrow> fst b \<le> sc fr"
      with f show ?thesis by auto
    next
      fix m
      assume m: "m < length frs" "fst (snd b) = Suc i + m" "ok (frs ! m)" "fst b = sc (frs ! m)"
        "snd (snd b) = \<lparr>rx = rx (frs ! m), ry = ry (frs ! m), width = swidth g, height = sheight g\<rparr>"
        "\<forall>fr\<in>set frs. ok fr \<longrightarrow> fst b \<le> sc fr"
        "\<forall>fr\<in>set (take m frs). ok fr \<longrightarrow> fst b < sc fr"
        "\<forall>b0. best = Some b0 \<longrightarrow> fst b < fst b0"
      with f have lt: "ok f \<Longrightarrow> fst b < sc f" by fastforce
      have "Suc m < length (f # frs) \<and> fst (snd b) = i + Suc m \<and> ok ((f # frs) ! Suc m) \<and>
            fst b = sc ((f # frs) ! Suc m) \<and>
            snd (snd b) = \<lparr>rx = rx ((f # frs) ! Suc m), ry = ry ((f # frs) ! Suc m),
                             width = swidth g, height = sheight g\<rparr> \<and>
            (\<forall>fr \<in> set (f # frs). ok fr \<longrightarrow> fst b \<le> sc fr) \<and>
            (\<forall>fr \<in> set (take (Suc m) (f # frs)). ok fr \<longrightarrow> fst b < sc fr) \<and>
            (\<forall>b0. best = Some b0 \<longrightarrow> fst b < fst b0)"
        using m lt by auto
      then show ?thesis by blast
    qed
  qed
qed

lemma bestFit_firstMin:
  assumes "bestFit_loop g frs 0 None = Some b"
  shows "firstMin (fitsIn (swidth g) (sheight g))
           (\<lambda>fr. width fr * height fr - swidth g * sheight g) frs (fst (snd b))"
    and "fst b = width (frs ! fst (snd b)) * height (frs ! fst (snd b)) - swidth g * sheight g"
    and "snd (snd b) = \<lparr>rx = rx (frs ! fst (snd b)), ry = ry (frs ! fst (snd b)),
                          width = swidth g, height = sheight g\<rparr>"
  using bestFit_loop_first_min[OF assms] by (auto simp: firstMin_def)


lemma chooseBest_loop_None:
  "chooseBest_loop LW w h frs best = None \<longleftrightarrow>
     best = None \<and> (\<forall>fr \<in> set frs. \<not> fitsIn w h (snd fr))"
proof (induction frs arbitrary: best)
  case Nil
  then show ?case by simp
next
  case (Cons f frs)
  show ?case
  proof (cases "fitsIn w h (snd f)")
    case False
    then have "chooseBest_loop LW w h (f # frs) best = chooseBest_loop LW w h frs best"
      by (auto simp: fitsIn_def)
    with Cons.IH[of best] False show ?thesis by simp
  next
    case True
    then have "chooseBest_loop LW w h (f # frs) best =
                 chooseBest_loop LW w h frs (Some (f, rectScore LW w h (snd f))) \<or>
               (\<exists>b0. best = Some b0 \<and>
                  chooseBest_loop LW w h (f # frs) best = chooseBest_loop LW w h frs (Some b0))"
      by (cases best) (simp_all add: fitsIn_def Let_def)
    then obtain b where "chooseBest_loop LW w h (f # frs) best = chooseBest_loop LW w h frs (Some b)"
      by blast
    with Cons.IH[of "Some b"] True show ?thesis by simp
  qed
qed

lemma chooseBest_loop_first_min:
  assumes "chooseBest_loop LW w h frs best = Some r"
  defines "sc \<equiv> \<lambda>fr. rectScore LW w h (snd fr)"
  defines "ok \<equiv> \<lambda>fr. fitsIn w h (snd fr)"
  shows "(best = Some r \<and> (\<forall>fr \<in> set frs. ok fr \<longrightarrow> snd r \<le> sc fr)) \<or>
         (\<exists>m < length frs. fst r = frs ! m \<and> ok (frs ! m) \<and> snd r = sc (frs ! m) \<and>
            (\<forall>fr \<in> set frs. ok fr \<longrightarrow> snd r \<le> sc fr) \<and>
            (\<forall>fr \<in> set (take m frs). ok fr \<longrightarrow> snd r < sc fr) \<and>
            (\<forall>b0. best = Some b0 \<longrightarrow> snd r < snd b0))"
  using assms(1)
proof (induction frs arbitrary: best)
  case Nil
  then show ?case by simp
next
  case (Cons f frs)
  show ?case
  proof (cases "ok f \<and> (\<forall>b0. best = Some b0 \<longrightarrow> sc f < snd b0)")
    case True
    then have "chooseBest_loop LW w h (f # frs) best = chooseBest_loop LW w h frs (Some (f, sc f))"
      by (cases best) (auto simp: ok_def sc_def fitsIn_def Let_def)
    with Cons.prems have rec: "chooseBest_loop LW w h frs (Some (f, sc f)) = Some r" by simp
    from Cons.IH[OF rec] show ?thesis
    proof (elim disjE conjE exE)
      assume "Some (f, sc f) = Some r" and le: "\<forall>fr\<in>set frs. ok fr \<longrightarrow> snd r \<le> sc fr"
      then have r: "r = (f, sc f)" by simp
      have "0 < length (f # frs) \<and> fst r = (f # frs) ! 0 \<and> ok ((f # frs) ! 0) \<and>
            snd r = sc ((f # frs) ! 0) \<and>
            (\<forall>fr \<in> set (f # frs). ok fr \<longrightarrow> snd r \<le> sc fr) \<and>
            (\<forall>fr \<in> set (take 0 (f # frs)). ok fr \<longrightarrow> snd r < sc fr) \<and>
            (\<forall>b0. best = Some b0 \<longrightarrow> snd r < snd b0)"
        using True le by (simp add: r)
      then show ?thesis by blast
    next
      fix m
      assume m: "m < length frs" "fst r = frs ! m" "ok (frs ! m)" "snd r = sc (frs ! m)"
        "\<forall>fr\<in>set frs. ok fr \<longrightarrow> snd r \<le> sc fr"
        "\<forall>fr\<in>set (take m frs). ok fr \<longrightarrow> snd r < sc fr"
        "\<forall>b0. Some (f, sc f) = Some b0 \<longrightarrow> snd r < snd b0"
      then have lt: "snd r < sc f" by simp
      have "Suc m < length (f # frs) \<and> fst r = (f # frs) ! Suc m \<and> ok ((f # frs) ! Suc m) \<and>
            snd r = sc ((f # frs) ! Suc m) \<and>
            (\<forall>fr \<in> set (f # frs). ok fr \<longrightarrow> snd r \<le> sc fr) \<and>
            (\<forall>fr \<in> set (take (Suc m) (f # frs)). ok fr \<longrightarrow> snd r < sc fr) \<and>
            (\<forall>b0. best = Some b0 \<longrightarrow> snd r < snd b0)"
        using m(1-6) lt True by auto
      then show ?thesis by blast
    qed
  next
    case False
    then have "chooseBest_loop LW w h (f # frs) best = chooseBest_loop LW w h frs best"
      by (cases best) (auto simp: ok_def sc_def fitsIn_def Let_def)
    with Cons.prems have rec: "chooseBest_loop LW w h frs best = Some r" by simp
    from False have f: "ok f \<Longrightarrow> \<exists>b0. best = Some b0 \<and> snd b0 \<le> sc f"
      by (auto simp: not_less)
    from Cons.IH[OF rec] show ?thesis
    proof (elim disjE conjE exE)
      assume "best = Some r" and le: "\<forall>fr\<in>set frs. ok fr \<longrightarrow> snd r \<le> sc fr"
      with f show ?thesis by auto
    next
      fix m
      assume m: "m < length frs" "fst r = frs ! m" "ok (frs ! m)" "snd r = sc (frs ! m)"
        "\<forall>fr\<in>set frs. ok fr \<longrightarrow> snd r \<le> sc fr"
        "\<forall>fr\<in>set (take m frs). ok fr \<longrightarrow> snd r < sc fr"
        "\<forall>b0. best = Some b0 \<longrightarrow> snd r < snd b0"
      with f have lt: "ok f \<Longrightarrow> snd r < sc f" by fastforce
      have "Suc m < length (f # frs) \<and> fst r = (f # frs) ! Suc m \<and> ok ((f # frs) ! Suc m) \<and>
            snd r = sc ((f # frs) ! Suc m) \<and>
            (\<forall>fr \<in> set (f # frs). ok fr \<longrightarrow> snd r \<le> sc fr) \<and>
            (\<forall>fr \<in> set (take (Suc m) (f # frs)). ok fr \<longrightarrow> snd r < sc fr) \<and>
            (\<forall>b0. best = Some b0 \<longrightarrow> snd r < snd b0)"
        using m lt by auto
      then show ?thesis by blast
    qed
  qed
qed

lemma chooseBestRect_None:
  "chooseBestRect LW F w h = None \<longleftrightarrow> (\<forall>fr \<in> set F. \<not> fitsIn w h (snd fr))"
  by (simp add: chooseBestRect_def chooseBest_loop_None)

lemma chooseBestRect_firstMin:
  assumes "chooseBestRect LW F w h = Some t"
  shows "\<exists>i. firstMin (fitsIn w h) (rectScore LW w h) (map snd F) i \<and> F ! i = t"
proof -
  from assms obtain r where r: "chooseBest_loop LW w h F None = Some r" and t: "t = fst r"
    by (auto simp: chooseBestRect_def)
  from chooseBest_loop_first_min[OF r] obtain m where m: "m < length F" "fst r = F ! m"
    "fitsIn w h (snd (F ! m))" "snd r = rectScore LW w h (snd (F ! m))"
    "\<forall>fr \<in> set F. fitsIn w h (snd fr) \<longrightarrow> snd r \<le> rectScore LW w h (snd fr)"
    "\<forall>fr \<in> set (take m F). fitsIn w h (snd fr) \<longrightarrow> snd r < rectScore LW w h (snd fr)"
    by auto
  then have "firstMin (fitsIn w h) (rectScore LW w h) (map snd F) m"
    by (auto simp: firstMin_def take_map)
  with m(2) t show ?thesis by auto
qed

text \<open>
  Claim C3, as amended. Both packers consider exactly the free rectangles the item fits
  (\<open>fitsIn\<close>) and take the first one, in the order of the free list, of least score. In the
  naive packer the score is \<open>rect.area - item.area\<close>, and an item that fits nowhere is left
  out of the result. In the tiered packer the score is \<open>rectScore\<close>:
  \<open>y * LAYOUT_WIDTH + x\<close>, less a bonus for an exact fit, and an item that fits nowhere is
  appended to \<open>overflow\<close>. Neither has a failing branch.
\<close>

theorem C3_selection:
  "(bestFit_loop g frs 0 None = None \<longleftrightarrow> (\<forall>fr \<in> set frs. \<not> fitsIn (swidth g) (sheight g) fr)) \<and>
   (bestFit_loop g frs 0 None = Some b \<longrightarrow>
      firstMin (fitsIn (swidth g) (sheight g))
        (\<lambda>fr. width fr * height fr - swidth g * sheight g) frs (fst (snd b)) \<and>
      snd (snd b) = \<lparr>rx = rx (frs ! fst (snd b)), ry = ry (frs ! fst (snd b)),
                       width = swidth g, height = sheight g\<rparr>) \<and>
   (bestFit_loop g frs 0 None = None \<longrightarrow> naiveStep g (frs, ps) = (frs, ps)) \<and>
   (chooseBestRect LW F w h = None \<longleftrightarrow> (\<forall>fr \<in> set F. \<not> fitsIn w h (snd fr))) \<and>
   (chooseBestRect LW F w h = Some t \<longrightarrow>
      (\<exists>i. firstMin (fitsIn w h) (rectScore LW w h) (map snd F) i \<and> F ! i = t)) \<and>
   (chooseBestRect LW (freeRects st) (pwidth it) (pheight it) = None \<longrightarrow>
      placeItem LW it st = st\<lparr>overflow := overflow st @ [it]\<rparr>)"
proof (intro conjI impI)
  show "bestFit_loop g frs 0 None = None \<longleftrightarrow> (\<forall>fr \<in> set frs. \<not> fitsIn (swidth g) (sheight g) fr)"
    by (simp add: bestFit_loop_None)
  show "chooseBestRect LW F w h = None \<longleftrightarrow> (\<forall>fr \<in> set F. \<not> fitsIn w h (snd fr))"
    by (rule chooseBestRect_None)
next
  assume "bestFit_loop g frs 0 None = Some b"
  from bestFit_firstMin[OF this]
  show "firstMin (fitsIn (swidth g) (sheight g))
        (\<lambda>fr. width fr * height fr - swidth g * sheight g) frs (fst (snd b))"
    and "snd (snd b) = \<lparr>rx = rx (frs ! fst (snd b)), ry = ry (frs ! fst (snd b)),
                       width = swidth g, height = sheight g\<rparr>"
    by simp_all
next
  assume "bestFit_loop g frs 0 None = None"
  then show "naiveStep g (frs, ps) = (frs, ps)" by (simp add: naiveStep_def)
next
  assume "chooseBestRect LW F w h = Some t"
  then show "\<exists>i. firstMin (fitsIn w h) (rectScore LW w h) (map snd F) i \<and> F ! i = t"
    by (rule chooseBestRect_firstMin)
next
  assume "chooseBestRect LW (freeRects st) (pwidth it) (pheight it) = None"
  then show "placeItem LW it st = st\<lparr>overflow := overflow st @ [it]\<rparr>"
    by (simp add: placeItem_def)
qed

section \<open>Splitting the chosen free rectangle\<close>

lemma pruneFreeRects_subset: "set (pruneFreeRects F) \<subseteq> set F"
proof -
  have "set (prune_loop [] F) \<subseteq> set F"
    by (rule prune_loop_closed[where Q = "\<lambda>l. set l \<subseteq> set F"]) auto
  then show ?thesis by (simp add: pruneFreeRects_def)
qed

text \<open>
  Claim C4, as amended. An item of positive width \<open>w\<close> and height \<open>h\<close> is placed at the
  top-left corner of a free rectangle \<open>fr\<close> it fits. The rectangle is removed from the free
  list. A right remainder at \<open>(x + w, y)\<close> of width \<open>fr.width - w\<close> is emitted iff
  \<open>w < fr.width\<close>; its height is \<open>h\<close> in the tiered packer and \<open>fr.height\<close> in the naive
  packer. A bottom remainder at \<open>(x, y + h)\<close> of height \<open>fr.height - h\<close> is emitted iff
  \<open>h < fr.height\<close>; its width is \<open>fr.width\<close> in the tiered packer, and in the naive packer
  \<open>w\<close> when the right remainder is emitted and \<open>fr.width\<close> otherwise. Every remainder
  emitted has a positive width and height. The tiered packer then prunes the free list,
  which keeps the free rectangles of positive area so.
\<close>

theorem C4_split:
  "0 < w \<and> w \<le> width fr \<and> 0 < h \<and> h \<le> height fr \<longrightarrow>
     newFreeRects fr \<lparr>rx = rx fr, ry = ry fr, width = w, height = h\<rparr> =
       (if w < width fr
        then [\<lparr>rx = rx fr + w, ry = ry fr, width = width fr - w, height = height fr\<rparr>] else []) @
       (if h < height fr
        then [\<lparr>rx = rx fr, ry = ry fr + h, width = (if w < width fr then w else width fr),
               height = height fr - h\<rparr>] else []) \<and>
     (\<forall>r \<in> set (newFreeRects fr \<lparr>rx = rx fr, ry = ry fr, width = w, height = h\<rparr>).
        0 < width r \<and> 0 < height r) \<and>
     (bestFit_loop g frs 0 None = Some b \<longrightarrow>
        fst (naiveStep g (frs, ps)) =
          take (fst (snd b)) frs @ drop (Suc (fst (snd b))) frs @
          newFreeRects (frs ! fst (snd b)) (snd (snd b))) \<and>
     freeRects (splitFreeRect (k, fr) \<lparr>rx = rx fr, ry = ry fr, width = w, height = h\<rparr> st) =
       pruneFreeRects
         (removeRect k (freeRects st) @
          (if w < width fr
           then [(nextId st, \<lparr>rx = rx fr + w, ry = ry fr, width = width fr - w, height = h\<rparr>)]
           else []) @
          (if h < height fr
           then [(if w < width fr then Suc (nextId st) else nextId st,
                  \<lparr>rx = rx fr, ry = ry fr + h, width = width fr, height = height fr - h\<rparr>)]
           else [])) \<and>
     ((\<forall>f \<in> set (freeRects st). 0 < width (snd f) \<and> 0 < height (snd f)) \<longrightarrow>
        (\<forall>f \<in> set (freeRects
                      (splitFreeRect (k, fr) \<lparr>rx = rx fr, ry = ry fr, width = w, height = h\<rparr> st)).
           0 < width (snd f) \<and> 0 < height (snd f)))"
proof (intro impI)
  assume a: "0 < w \<and> w \<le> width fr \<and> 0 < h \<and> h \<le> height fr"
  let ?placed = "\<lparr>rx = rx fr, ry = ry fr, width = w, height = h\<rparr>"
  let ?N = "(if w < width fr
           then [(nextId st, \<lparr>rx = rx fr + w, ry = ry fr, width = width fr - w, height = h\<rparr>)]
           else []) @
          (if h < height fr
           then [(if w < width fr then Suc (nextId st) else nextId st,
                  \<lparr>rx = rx fr, ry = ry fr + h, width = width fr, height = height fr - h\<rparr>)]
           else [])"
  have 1: "newFreeRects fr ?placed =
       (if w < width fr
        then [\<lparr>rx = rx fr + w, ry = ry fr, width = width fr - w, height = height fr\<rparr>] else []) @
       (if h < height fr
        then [\<lparr>rx = rx fr, ry = ry fr + h, width = (if w < width fr then w else width fr),
               height = height fr - h\<rparr>] else [])"
    by (simp add: newFreeRects_def Let_def)
  have 2: "\<forall>r \<in> set (newFreeRects fr ?placed). 0 < width r \<and> 0 < height r"
    using a by (auto simp: newFreeRects_def Let_def)
  have 3: "bestFit_loop g frs 0 None = Some b \<longrightarrow>
        fst (naiveStep g (frs, ps)) =
          take (fst (snd b)) frs @ drop (Suc (fst (snd b))) frs @
          newFreeRects (frs ! fst (snd b)) (snd (snd b))"
    by (simp add: naiveStep_def Let_def)
  have 4: "freeRects (splitFreeRect (k, fr) ?placed st) =
             pruneFreeRects (removeRect k (freeRects st) @ ?N)"
    using a by (simp add: splitFreeRect_def addFreeRect_def Let_def)
  have 5: "\<forall>f \<in> set (freeRects (splitFreeRect (k, fr) ?placed st)).
             0 < width (snd f) \<and> 0 < height (snd f)"
    if pos: "\<forall>f \<in> set (freeRects st). 0 < width (snd f) \<and> 0 < height (snd f)"
  proof
    fix f assume "f \<in> set (freeRects (splitFreeRect (k, fr) ?placed st))"
    then have "f \<in> set (pruneFreeRects (removeRect k (freeRects st) @ ?N))"
      by (simp only: 4)
    with pruneFreeRects_subset[of "removeRect k (freeRects st) @ ?N"]
    have "f \<in> set (removeRect k (freeRects st) @ ?N)" by (rule subsetD)
    then have "f \<in> set (removeRect k (freeRects st)) \<or> f \<in> set ?N"
      by (simp only: set_append Un_iff)
    then consider "f \<in> set (freeRects st)" | "f \<in> set ?N"
      using removeRect_subset[of k "freeRects st"] by blast
    then show "0 < width (snd f) \<and> 0 < height (snd f)"
    proof cases
      case 1
      with pos show ?thesis by simp
    next
      case 2
      with a show ?thesis by (auto split: if_splits)
    qed
  qed
  from 1 2 3 4 5
  show "newFreeRects fr ?placed =
       (if w < width fr
        then [\<lparr>rx = rx fr + w, ry = ry fr, width = width fr - w, height = height fr\<rparr>] else []) @
       (if h < height fr
        then [\<lparr>rx = rx fr, ry = ry fr + h, width = (if w < width fr then w else width fr),
               height = height fr - h\<rparr>] else []) \<and>
     (\<forall>r \<in> set (newFreeRects fr ?placed). 0 < width r \<and> 0 < height r) \<and>
     (bestFit_loop g frs 0 None = Some b \<longrightarrow>
        fst (naiveStep g (frs, ps)) =
          take (fst (snd b)) frs @ drop (Suc (fst (snd b))) frs @
          newFreeRects (frs ! fst (snd b)) (snd (snd b))) \<and>
     freeRects (splitFreeRect (k, fr) ?placed st) =
       pruneFreeRects (removeRect k (freeRects st) @ ?N) \<and>
     ((\<forall>f \<in> set (freeRects st). 0 < width (snd f) \<and> 0 < height (snd f)) \<longrightarrow>
        (\<forall>f \<in> set (freeRects (splitFreeRect (k, fr) ?placed st)).
           0 < width (snd f) \<and> 0 < height (snd f)))"
    by blast
qed

section \<open>The layouts on the example inputs\<close>

lemma sqrt_1166400: "sqrt 1166400 = 1080"
  by (rule real_sqrt_unique) simp_all

text \<open>From one to ten games the canvas is 1100 by 1920.\<close>

lemma canvas_four: "calculateCanvasDimensions 4 = (1100, 1920)"
  unfolding calculateCanvasDimensions_def Let_def by (simp add: sqrt_1166400 round_def)

lemma canvas_six: "calculateCanvasDimensions 6 = (1100, 1920)"
  unfolding calculateCanvasDimensions_def Let_def by (simp add: sqrt_1166400 round_def)

lemma sized_played:
  assumes "0 \<le> t"
  shows "sizedGame (played a t) =
           \<lparr>sgame = played a t, swidth = 2 * real_of_int t, sheight = 3 * real_of_int t\<rparr>"
proof -
  have "real_of_int (30 * t * t) / 100 * 20 / (2 / 3) = (3 * real_of_int t)\<^sup>2"
    by (simp add: power2_eq_square)
  then have "sqrt (real_of_int (30 * t * t) / 100 * 20 / (2 / 3)) = \<bar>3 * real_of_int t\<bar>"
    by (simp only: real_sqrt_abs)
  also have "\<dots> = 3 * real_of_int t"
    using assms by simp
  finally have "sqrt (real_of_int (30 * t * t) / 100 * 20 / (2 / 3)) = 3 * real_of_int t" .
  then show ?thesis
    by (simp add: sizedGame_def played_def Let_def)
qed

lemma sized_examples:
  "sizedGame (played a 320) = \<lparr>sgame = played a 320, swidth = 640, sheight = 960\<rparr>"
  "sizedGame (played a 240) = \<lparr>sgame = played a 240, swidth = 480, sheight = 720\<rparr>"
  "sizedGame (played a 200) = \<lparr>sgame = played a 200, swidth = 400, sheight = 600\<rparr>"
  "sizedGame (played a 10) = \<lparr>sgame = played a 10, swidth = 20, sheight = 30\<rparr>"
  by (simp_all add: sized_played)

lemma naive_three:
  "fold naiveStep [sizedGame (played 1 320), sizedGame (played 3 240), sizedGame (played 4 200)]
     ([canvas1100], []) =
     (free3, [tile 0 0 1 320, tile 0 960 3 240, tile 640 0 4 200])"
  by (simp add: sized_examples naiveStep_def newFreeRects_def canvas1100_def free3_def tile_def
      Let_def)

lemma naive_small:
  "bestFit_loop (sizedGame (played 2 10)) free3 0 None =
     Some (114600, 1, \<lparr>rx = 0, ry = 1680, width = 20, height = 30\<rparr>)"
  by (simp add: sized_examples free3_def)

lemma naive_example:
  "layoutGamesNaive (1100, 1920) four_played =
     [tile 0 0 1 320, tile 0 960 3 240, tile 640 0 4 200, tile 0 1680 2 10]"
  by (simp add: layoutGamesNaive_def four_played_def sized_examples naiveStep_def
      newFreeRects_def tile_def Let_def)

lemma idle_simps: "playtime_forever (idle a) = 0" "appid (idle a) = a"
  by (simp_all add: idle_def)

lemma unit_item_simps: "pgame (unit_item a) = idle a" "mult (unit_item a) = 1"
  "pwidth (unit_item a) = 550" "pheight (unit_item a) = 825" "rnd (unit_item a) = 0"
  by (simp_all add: unit_item_def)

lemma tierMult_idle: "tierMult 1 (idle a) = 1"
  by (simp add: tierMult_def idle_simps)

text \<open>
  The unit cell for six items of multiplier 1: the unquantised width
  \<open>sqrt 528000 * (2 / 3)\<close> lies between 1100 / 3 and 1100 / 2, so there are two columns.
\<close>

lemma unitCell_six:
  "unitCell 1100 1920 [(idle 1, 1), (idle 2, 1), (idle 3, 1), (idle 4, 1), (idle 5, 1), (idle 6, 1)]
     = (550, 825)"
proof -
  have lo: "550 < sqrt 528000"
    by (rule real_less_rsqrt) simp
  have hi: "sqrt 528000 < 825"
    by (rule real_less_lsqrt) simp_all
  define b where "b = sqrt 528000 * 2 / 3"
  have b: "1100 / 3 < b" "b < 1100 / 2"
    using lo hi by (simp_all add: b_def)
  then have b1: "max b 1 = b" by simp
  have narrow: "\<not> 1650 < sqrt 528000" using hi by simp
  have cols: "\<lfloor>1100 / b\<rfloor> = 2"
  proof (rule floor_unique)
    show "real_of_int 2 \<le> 1100 / b" using b by (simp add: field_simps)
    show "1100 / b < real_of_int 2 + 1" using b by (simp add: field_simps)
  qed
  have fits: "\<not> 1100 < b" using b by simp
  show ?thesis
    unfolding unitCell_def ASPECT_RATIO_def Let_def
    by (simp add: narrow fits b_def[symmetric] b1 cols)
qed

lemma phase1_six:
  "fold (placeItem 1100)
     [unit_item 1, unit_item 2, unit_item 3, unit_item 4, unit_item 5, unit_item 6]
     \<lparr>freeRects = [(0, \<lparr>rx = 0, ry = 100, width = 1100, height = 1820\<rparr>)],
      nextId = 1, results = [], overflow = []\<rparr>
   = \<lparr>freeRects = [(4, \<lparr>rx = 0, ry = 1750, width = 1100, height = 170\<rparr>)],
      nextId = 5,
      results = [cell 0 100 1, cell 550 100 2, cell 0 925 3, cell 550 925 4],
      overflow = [unit_item 5, unit_item 6]\<rparr>"
  by (simp add: placeItem_def chooseBestRect_def rectScore_def splitFreeRect_def addFreeRect_def
      pruneFreeRects_def contains_def unit_item_simps cell_def Let_def)

lemma shelf_six:
  "shelfPhase 550 825
     \<lparr>freeRects = [(4, \<lparr>rx = 0, ry = 1750, width = 1100, height = 170\<rparr>)],
      nextId = 5,
      results = [cell 0 100 1, cell 550 100 2, cell 0 925 3, cell 550 925 4],
      overflow = [unit_item 5, unit_item 6]\<rparr>
   = \<lparr>freeRects = [(5, \<lparr>rx = 0, ry = 1750, width = 1100, height = 170\<rparr>)],
      nextId = 6,
      results = [cell 0 100 1, cell 550 100 2, cell 0 925 3, cell 550 925 4],
      overflow = [unit_item 5, unit_item 6]\<rparr>"
  by (simp add: shelfPhase_def fillRectWithShelf_def fillRows.simps addFreeRect_def
      pruneFreeRects_def contains_def unit_item_simps Let_def)

text \<open>The steps of \<open>layoutState\<close>, one equation each, for evaluating it on a given input.\<close>

lemma layoutState_steps:
  assumes "sort_key (\<lambda>g. - playtime_forever g) games = baseList"
    and "sqrt (real_of_int (fold max (map (\<lambda>g. max (playtime_forever g) 1) baseList) 1)) = sqrtMax"
    and "sort_key (\<lambda>it. (- playtime_forever (fst it), - snd it))
           (map (\<lambda>g. (g, tierMult sqrtMax g)) baseList) = items"
    and "unitCell LW LH items = (bw, bh)"
    and "headerInfoHeight LH = hh"
    and "sort_key (\<lambda>a. - real_of_int (mult a) + (rnd a - 0.5) * RANDOM_JITTER)
           (map (prepare sine bw bh) items) = remainingDesc"
    and "fold (placeItem LW) remainingDesc
           \<lparr>freeRects = [(0, \<lparr>rx = 0, ry = hh, width = LW, height = max 0 (LH - hh)\<rparr>)],
            nextId = 1, results = [], overflow = []\<rparr> = st1"
    and "shelfPhase bw bh st1 = st2"
  shows "layoutState sine (LW, LH) games = st2"
  unfolding layoutState_def Let_def fst_conv snd_conv assms ..

lemma state_six:
  assumes "\<forall>a \<in> {1, 2, 3, 4, 5, 6}. sine (real_of_int a * RANDOM_SEED) = 0"
  shows "layoutState sine (1100, 1920) six_idle
     = \<lparr>freeRects = [(5, \<lparr>rx = 0, ry = 1750, width = 1100, height = 170\<rparr>)],
      nextId = 6,
      results = [cell 0 100 1, cell 550 100 2, cell 0 925 3, cell 550 925 4],
      overflow = [unit_item 5, unit_item 6]\<rparr>"
proof (rule layoutState_steps)
  show "sort_key (\<lambda>g. - playtime_forever g) six_idle = six_idle"
    by (simp add: six_idle_def idle_simps)
  show "sqrt (real_of_int (fold max (map (\<lambda>g. max (playtime_forever g) 1) six_idle) 1)) = 1"
    by (simp add: six_idle_def idle_simps)
  show "sort_key (\<lambda>it. (- playtime_forever (fst it), - snd it))
          (map (\<lambda>g. (g, tierMult 1 g)) six_idle)
        = [(idle 1, 1), (idle 2, 1), (idle 3, 1), (idle 4, 1), (idle 5, 1), (idle 6, 1)]"
    by (simp add: six_idle_def tierMult_idle idle_simps)
  show "unitCell 1100 1920 [(idle 1, 1), (idle 2, 1), (idle 3, 1), (idle 4, 1), (idle 5, 1), (idle 6, 1)]
     = (550, 825)" by (rule unitCell_six)
  show "headerInfoHeight 1920 = 100" by (simp add: headerInfoHeight_def)
  show "sort_key (\<lambda>a. - real_of_int (mult a) + (rnd a - 0.5) * RANDOM_JITTER)
     (map (prepare sine 550 825)
        [(idle 1, 1), (idle 2, 1), (idle 3, 1), (idle 4, 1), (idle 5, 1), (idle 6, 1)])
     = [unit_item 1, unit_item 2, unit_item 3, unit_item 4, unit_item 5, unit_item 6]"
    using assms by (simp add: prepare_def unit_item_def idle_simps)
  show "fold (placeItem 1100)
     [unit_item 1, unit_item 2, unit_item 3, unit_item 4, unit_item 5, unit_item 6]
     \<lparr>freeRects = [(0, \<lparr>rx = 0, ry = 100, width = 1100, height = max 0 (1920 - 100)\<rparr>)],
      nextId = 1, results = [], overflow = []\<rparr>
   = \<lparr>freeRects = [(4, \<lparr>rx = 0, ry = 1750, width = 1100, height = 170\<rparr>)],
      nextId = 5,
      results = [cell 0 100 1, cell 550 100 2, cell 0 925 3, cell 550 925 4],
      overflow = [unit_item 5, unit_item 6]\<rparr>"
    using phase1_six by simp
  show "shelfPhase 550 825
     \<lparr>freeRects = [(4, \<lparr>rx = 0, ry = 1750, width = 1100, height = 170\<rparr>)],
      nextId = 5,
      results = [cell 0 100 1, cell 550 100 2, cell 0 925 3, cell 550 925 4],
      overflow = [unit_item 5, unit_item 6]\<rparr>
   = \<lparr>freeRects = [(5, \<lparr>rx = 0, ry = 1750, width = 1100, height = 170\<rparr>)],
      nextId = 6,
      results = [cell 0 100 1, cell 550 100 2, cell 0 925 3, cell 550 925 4],
      overflow = [unit_item 5, unit_item 6]\<rparr>" by (rule shelf_six)
qed

lemma tiered_example:
  "layoutGames (\<lambda>_. 0) (1100, 1920) six_idle
     = [cell 0 100 1, cell 550 100 2, cell 0 925 3, cell 550 925 4]"
  by (simp add: layoutGames_def state_six) (simp add: six_idle_def)

lemma dropped_example:
  "droppedGames (\<lambda>_. 0) (1100, 1920) six_idle = [idle 5, idle 6]"
  by (simp add: droppedGames_def state_six unit_item_simps) (simp add: six_idle_def)

text \<open>
  The shelf pass at work, on a state made up for it: a free rectangle one row high and
  three items set aside. Two of them fill the row, the third stays in \<open>overflow\<close>.
\<close>

lemma fillRow_example:
  "fillRow 550 825 100
     \<lparr>localX = 0, spaceW = 1100, rowMaxH = 0, rowPlaced = 0,
      remainingAsc = [unit_item 1, unit_item 2, unit_item 3], rowResults = []\<rparr>
   = \<lparr>localX = 1100, spaceW = 0, rowMaxH = 825, rowPlaced = 2,
      remainingAsc = [unit_item 3], rowResults = [cell 0 100 1, cell 550 100 2]\<rparr>"
  by (simp add: fillRow.simps unit_item_simps cell_def Let_def)

lemma shelf_example:
  "shelfPhase 550 825
     \<lparr>freeRects = [(0, \<lparr>rx = 0, ry = 100, width = 1100, height = 825\<rparr>)], nextId = 1,
      results = [], overflow = [unit_item 1, unit_item 2, unit_item 3]\<rparr>
   = \<lparr>freeRects = [], nextId = 1,
      results = [cell 0 100 1, cell 550 100 2], overflow = [unit_item 3]\<rparr>"
  by (simp add: shelfPhase_def fillRectWithShelf_def fillRows.simps fillRow_example addFreeRect_def
      pruneFreeRects_def unit_item_simps Let_def)

section \<open>The claims on the example inputs\<close>



text \<open>C10 on the example: on a canvas 1920 high the strip is 100 high, and the first cell starts there.\<close>

theorem C10_below_header_witness:
  "cell 0 100 1 \<in> set (layoutGames (\<lambda>_. 0) (1100, 1920) six_idle) \<and>
   ry (cell 0 100 1) \<ge> real_of_int (max 60 (round (min (0.06 * 1920 :: real) 100))) \<and>
   real_of_int (max 60 (round (min (0.06 * 1920 :: real) 100))) = 100"
proof -
  have m: "cell 0 100 1 \<in> set (layoutGames (\<lambda>_. 0) (1100, 1920) six_idle)"
    by (simp add: tiered_example)
  with C10_below_header[of "\<lambda>_. 0" 1100 1920 six_idle]
  have "ry (cell 0 100 1) \<ge> real_of_int (max 60 (round (min (0.06 * 1920 :: real) 100)))" by blast
  with m show ?thesis by simp
qed

text \<open>C8 on the example: four of the six idle games are placed, two are dropped, none twice.\<close>

theorem C8_conservation_witness:
  "distinct (map appid six_idle) \<and>
   distinct (map (\<lambda>p. appid (game p)) (layoutGames (\<lambda>_. 0) (1100, 1920) six_idle)) \<and>
   map (\<lambda>p. appid (game p)) (layoutGames (\<lambda>_. 0) (1100, 1920) six_idle) = [1, 2, 3, 4] \<and>
   map appid (droppedGames (\<lambda>_. 0) (1100, 1920) six_idle) = [5, 6] \<and>
   mset (map game (layoutGames (\<lambda>_. 0) (1100, 1920) six_idle)) +
     mset (droppedGames (\<lambda>_. 0) (1100, 1920) six_idle) = mset six_idle"
proof -
  have d: "distinct (map appid six_idle)"
    by (simp add: six_idle_def idle_simps)
  with C8_conservation[of "\<lambda>_. 0" "(1100, 1920)" six_idle]
  have "distinct (map (\<lambda>p. appid (game p)) (layoutGames (\<lambda>_. 0) (1100, 1920) six_idle))"
    and "mset (map game (layoutGames (\<lambda>_. 0) (1100, 1920) six_idle)) +
           mset (droppedGames (\<lambda>_. 0) (1100, 1920) six_idle) = mset six_idle"
    by blast+
  with d show ?thesis
    by (simp add: tiered_example dropped_example cell_def idle_simps)
qed

text \<open>
  C5 on the example: two sines that differ, but not at the six arguments the layout
  reads, give the same layout.
\<close>

theorem C5_deterministic_witness:
  "layoutGames (\<lambda>_. 0) (1100, 1920) six_idle =
     layoutGames (\<lambda>x. if x = 0 then 1 else 0) (1100, 1920) six_idle \<and>
   (\<lambda>x. if x = 0 then 1 else 0) (0::real) \<noteq> (0::real)"
proof -
  have "\<forall>g \<in> set six_idle.
          (\<lambda>_. 0) (real_of_int (appid g) * RANDOM_SEED) =
          (\<lambda>x. if x = 0 then 1 else (0::real)) (real_of_int (appid g) * RANDOM_SEED)"
    by (simp add: six_idle_def idle_simps RANDOM_SEED_def)
  from C5_deterministic[OF this, of "(1100, 1920)"] show ?thesis by simp
qed


section \<open>The claims the code departs from\<close>

text \<open>
  Claim C3 as stated fails on the naive packer. For the four games of \<open>four_played\<close> the
  page computes a canvas of 1100 by 1920. Once the three larger games are placed, the free
  rectangles at \<open>(0, 1680)\<close> and at \<open>(1040, 0)\<close>, second and third of the list, both have
  area 115200, no free rectangle is smaller, and the 20 by 30 game \<open>played 2 10\<close> fits both.
  The specification's tie-break (the smaller \<open>y\<close>) selects the one at \<open>(1040, 0)\<close>; the scan
  keeps the first it met, and the game is placed at \<open>(0, 1680)\<close>.
\<close>

theorem C3_counterexample:
  "fst (fold naiveStep [sizedGame (played 1 320), sizedGame (played 3 240), sizedGame (played 4 200)]
          ([canvas1100], [])) = free3 \<and>
   bestFit_loop (sizedGame (played 2 10)) free3 0 None =
     Some (114600, 1, \<lparr>rx = 0, ry = 1680, width = 20, height = 30\<rparr>) \<and>
   \<not> specChoice (swidth (sizedGame (played 2 10))) (sheight (sizedGame (played 2 10))) free3 1 \<and>
   specChoice (swidth (sizedGame (played 2 10))) (sheight (sizedGame (played 2 10))) free3 2 \<and>
   tile 0 1680 2 10 \<in> set (layoutGamesNaive (calculateCanvasDimensions 4) four_played)"
proof -
  have a: "fst (fold naiveStep [sizedGame (played 1 320), sizedGame (played 3 240), sizedGame (played 4 200)]
                  ([canvas1100], [])) = free3"
    by (simp only: naive_three fst_conv)
  have b: "\<not> specChoice (swidth (sizedGame (played 2 10))) (sheight (sizedGame (played 2 10))) free3 1"
    by (simp add: sized_examples specChoice_def fitsIn_def free3_def)
  have c: "specChoice (swidth (sizedGame (played 2 10))) (sheight (sizedGame (played 2 10))) free3 2"
    by (simp add: sized_examples specChoice_def fitsIn_def free3_def)
  have d: "tile 0 1680 2 10 \<in> set (layoutGamesNaive (calculateCanvasDimensions 4) four_played)"
    by (simp only: canvas_four naive_example) simp
  from a naive_small b c d show ?thesis by blast
qed

text \<open>C3, as amended, on the examples.\<close>

theorem C3_selection_witness:
  "firstMin (fitsIn (swidth (sizedGame (played 2 10))) (sheight (sizedGame (played 2 10))))
     (\<lambda>fr. width fr * height fr - swidth (sizedGame (played 2 10)) * sheight (sizedGame (played 2 10))) free3 1 \<and>
   naiveStep (sizedGame (played 1 320)) ([\<lparr>rx = 0, ry = 0, width = 100, height = 100\<rparr>], []) =
     ([\<lparr>rx = 0, ry = 0, width = 100, height = 100\<rparr>], []) \<and>
   (\<exists>i. firstMin (fitsIn 550 825) (rectScore 1100 550 825)
          (map snd [(0::nat, \<lparr>rx = 0, ry = 100, width = 1100, height = 1820\<rparr>)]) i \<and>
        [(0::nat, \<lparr>rx = 0, ry = 100, width = 1100, height = 1820\<rparr>)] ! i =
          (0, \<lparr>rx = 0, ry = 100, width = 1100, height = 1820\<rparr>)) \<and>
   placeItem 1100 (unit_item 5)
     \<lparr>freeRects = [(4, \<lparr>rx = 0, ry = 1750, width = 1100, height = 170\<rparr>)], nextId = 5,
      results = [], overflow = []\<rparr> =
     \<lparr>freeRects = [(4, \<lparr>rx = 0, ry = 1750, width = 1100, height = 170\<rparr>)], nextId = 5,
      results = [], overflow = [unit_item 5]\<rparr>"
proof -
  let ?tiny = "\<lparr>rx = 0, ry = 0, width = 100, height = 100\<rparr> :: Rect"
  let ?F0 = "[(0::nat, \<lparr>rx = 0, ry = 100, width = 1100, height = 1820\<rparr>)]"
  let ?st = "\<lparr>freeRects = [(4::nat, \<lparr>rx = 0, ry = 1750, width = 1100, height = 170\<rparr>)],
              nextId = 5, results = [], overflow = []\<rparr>"
  have h1: "bestFit_loop (sizedGame (played 2 10)) free3 0 None =
              Some (114600, 1, \<lparr>rx = 0, ry = 1680, width = 20, height = 30\<rparr>)"
    by (rule naive_small)
  have h2: "bestFit_loop (sizedGame (played 1 320)) [?tiny] 0 None = None"
    by (simp add: sized_examples)
  have h3: "chooseBestRect 1100 ?F0 550 825 =
              Some (0, \<lparr>rx = 0, ry = 100, width = 1100, height = 1820\<rparr>)"
    by (simp add: chooseBestRect_def)
  have h4: "chooseBestRect 1100 (freeRects ?st) (pwidth (unit_item 5)) (pheight (unit_item 5)) = None"
    by (simp add: chooseBestRect_def unit_item_simps)
  from C3_selection[of "sizedGame (played 2 10)" free3
      "(114600, 1, \<lparr>rx = 0, ry = 1680, width = 20, height = 30\<rparr>)"] h1
  have a: "firstMin (fitsIn (swidth (sizedGame (played 2 10))) (sheight (sizedGame (played 2 10))))
     (\<lambda>fr. width fr * height fr - swidth (sizedGame (played 2 10)) * sheight (sizedGame (played 2 10))) free3 1"
    by (simp only: fst_conv snd_conv)
  from C3_selection[of "sizedGame (played 1 320)" "[?tiny]" _ "[]"] h2
  have b: "naiveStep (sizedGame (played 1 320)) ([?tiny], []) = ([?tiny], [])" by blast
  from C3_selection[of _ _ _ _ 1100 ?F0 550 825
      "(0, \<lparr>rx = 0, ry = 100, width = 1100, height = 1820\<rparr>)"] h3
  have c: "\<exists>i. firstMin (fitsIn 550 825) (rectScore 1100 550 825) (map snd ?F0) i \<and>
        ?F0 ! i = (0, \<lparr>rx = 0, ry = 100, width = 1100, height = 1820\<rparr>)" by blast
  from C3_selection[of _ _ _ _ 1100 _ _ _ _ ?st "unit_item 5"] h4
  have d: "placeItem 1100 (unit_item 5) ?st = ?st\<lparr>overflow := overflow ?st @ [unit_item 5]\<rparr>"
    by blast
  from a b c d show ?thesis by simp
qed

text \<open>
  Claim C4 as stated fails on the naive packer. Placing a 640 by 960 item on the empty
  canvas of 1100 by 1920, the right remainder it emits is as high as the canvas, not as
  high as the item: the rectangle the claim describes is not emitted. And for an item
  of width and height 0 (a game never played) the bottom remainder is emitted with
  width 0.
\<close>

theorem C4_counterexample:
  "newFreeRects canvas1100 \<lparr>rx = 0, ry = 0, width = 640, height = 960\<rparr> =
     [\<lparr>rx = 640, ry = 0, width = 460, height = 1920\<rparr>,
      \<lparr>rx = 0, ry = 960, width = 640, height = 960\<rparr>] \<and>
   \<lparr>rx = 640, ry = 0, width = 460, height = 960\<rparr>
     \<notin> set (newFreeRects canvas1100 \<lparr>rx = 0, ry = 0, width = 640, height = 960\<rparr>) \<and>
   newFreeRects canvas1100 \<lparr>rx = 0, ry = 0, width = 0, height = 0\<rparr> =
     [\<lparr>rx = 0, ry = 0, width = 1100, height = 1920\<rparr>,
      \<lparr>rx = 0, ry = 0, width = 0, height = 1920\<rparr>]"
  by (simp add: newFreeRects_def canvas1100_def)

text \<open>C4, as amended, on the examples: the first placement of each packer.\<close>

theorem C4_split_witness:
  "newFreeRects \<lparr>rx = 0, ry = 100, width = 1100, height = 1820\<rparr>
     \<lparr>rx = 0, ry = 100, width = 550, height = 825\<rparr> =
     [\<lparr>rx = 550, ry = 100, width = 550, height = 1820\<rparr>,
      \<lparr>rx = 0, ry = 925, width = 550, height = 995\<rparr>] \<and>
   fst (naiveStep (sizedGame (played 1 320)) ([canvas1100], [])) =
     [\<lparr>rx = 640, ry = 0, width = 460, height = 1920\<rparr>,
      \<lparr>rx = 0, ry = 960, width = 640, height = 960\<rparr>] \<and>
   freeRects (splitFreeRect (0, \<lparr>rx = 0, ry = 100, width = 1100, height = 1820\<rparr>)
                \<lparr>rx = 0, ry = 100, width = 550, height = 825\<rparr>
                \<lparr>freeRects = [(0, \<lparr>rx = 0, ry = 100, width = 1100, height = 1820\<rparr>)],
                 nextId = 1, results = [], overflow = []\<rparr>) =
     [(1, \<lparr>rx = 550, ry = 100, width = 550, height = 825\<rparr>),
      (2, \<lparr>rx = 0, ry = 925, width = 1100, height = 995\<rparr>)] \<and>
   list_all (\<lambda>f. 0 < width (snd f) \<and> 0 < height (snd f))
     (freeRects (splitFreeRect (0, \<lparr>rx = 0, ry = 100, width = 1100, height = 1820\<rparr>)
                \<lparr>rx = 0, ry = 100, width = 550, height = 825\<rparr>
                \<lparr>freeRects = [(0, \<lparr>rx = 0, ry = 100, width = 1100, height = 1820\<rparr>)],
                 nextId = 1, results = [], overflow = []\<rparr>))"
proof -
  let ?fr = "\<lparr>rx = 0, ry = 100, width = 1100, height = 1820\<rparr> :: Rect"
  let ?st = "\<lparr>freeRects = [(0::nat, ?fr)], nextId = 1, results = [], overflow = []\<rparr>"
  let ?b = "(1497600 :: real, 0 :: nat, \<lparr>rx = 0, ry = 0, width = 640, height = 960\<rparr>)"
  have h0: "(0::real) < 550 \<and> 550 \<le> width ?fr \<and> (0::real) < 825 \<and> 825 \<le> height ?fr"
    by simp
  have h1: "bestFit_loop (sizedGame (played 1 320)) [canvas1100] 0 None = Some ?b"
    by (simp add: sized_examples canvas1100_def)
  have h2: "\<forall>f \<in> set (freeRects ?st). 0 < width (snd f) \<and> 0 < height (snd f)"
    by simp
  note inst = C4_split[of 550 ?fr 825 "sizedGame (played 1 320)" "[canvas1100]" ?b "[]" 0 ?st,
      rule_format, OF h0]
  from inst have a: "newFreeRects ?fr \<lparr>rx = rx ?fr, ry = ry ?fr, width = 550, height = 825\<rparr> =
       [\<lparr>rx = 550, ry = 100, width = 550, height = 1820\<rparr>,
        \<lparr>rx = 0, ry = 925, width = 550, height = 995\<rparr>]"
    by simp
  from inst h1 have "fst (naiveStep (sizedGame (played 1 320)) ([canvas1100], [])) =
          take (fst (snd ?b)) [canvas1100] @ drop (Suc (fst (snd ?b))) [canvas1100] @
          newFreeRects ([canvas1100] ! fst (snd ?b)) (snd (snd ?b))"
    by blast
  then have b: "fst (naiveStep (sizedGame (played 1 320)) ([canvas1100], [])) =
     [\<lparr>rx = 640, ry = 0, width = 460, height = 1920\<rparr>,
      \<lparr>rx = 0, ry = 960, width = 640, height = 960\<rparr>]"
    by (simp add: newFreeRects_def canvas1100_def)
  from inst have "freeRects (splitFreeRect (0, ?fr)
                    \<lparr>rx = rx ?fr, ry = ry ?fr, width = 550, height = 825\<rparr> ?st) =
       pruneFreeRects
         (removeRect 0 (freeRects ?st) @
          (if (550::real) < width ?fr
           then [(nextId ?st, \<lparr>rx = rx ?fr + 550, ry = ry ?fr, width = width ?fr - 550, height = 825\<rparr>)]
           else []) @
          (if (825::real) < height ?fr
           then [(if (550::real) < width ?fr then Suc (nextId ?st) else nextId ?st,
                  \<lparr>rx = rx ?fr, ry = ry ?fr + 825, width = width ?fr, height = height ?fr - 825\<rparr>)]
           else []))"
    by blast
  then have c: "freeRects (splitFreeRect (0, ?fr) \<lparr>rx = 0, ry = 100, width = 550, height = 825\<rparr> ?st) =
     [(1, \<lparr>rx = 550, ry = 100, width = 550, height = 825\<rparr>),
      (2, \<lparr>rx = 0, ry = 925, width = 1100, height = 995\<rparr>)]"
    by (simp add: pruneFreeRects_def contains_def)
  from inst h2 have "\<forall>f \<in> set (freeRects (splitFreeRect (0, ?fr)
                    \<lparr>rx = rx ?fr, ry = ry ?fr, width = 550, height = 825\<rparr> ?st)).
           0 < width (snd f) \<and> 0 < height (snd f)"
    by blast
  then have d: "list_all (\<lambda>f. 0 < width (snd f) \<and> 0 < height (snd f))
     (freeRects (splitFreeRect (0, ?fr) \<lparr>rx = 0, ry = 100, width = 550, height = 825\<rparr> ?st))"
    by (simp add: list_all_iff)
  from a b c d show ?thesis by simp
qed

section \<open>Positive sizes\<close>

text \<open>
  Claim C7 as stated fails on the linear size model of the naive packer, which does not
  clamp: a game never played gets width and height 0, and the naive layout places that
  0 by 0 rectangle.
\<close>

theorem C7_counterexample:
  "swidth (sizedGame (idle 1)) = 0 \<and> sheight (sizedGame (idle 1)) = 0 \<and>
   layoutGamesNaive (1100, 1920) [idle 1] =
     [\<lparr>rx = 0, ry = 0, width = 0, height = 0, game = idle 1\<rparr>]"
proof -
  have s: "sizedGame (idle 1) = \<lparr>sgame = idle 1, swidth = 0, sheight = 0\<rparr>"
    by (simp add: sizedGame_def idle_simps)
  then show ?thesis
    by (simp add: layoutGamesNaive_def naiveStep_def Let_def)
qed

text \<open>
  Claim C7, as amended. In the tiered size model every game, whatever its play time (0 and
  negative ones are clamped to 1 by \<^verbatim>\<open>Math.max(playtime_forever, 1)\<close>), gets a tier multiplier
  \<open>\<ge> 1\<close>; the unit cell is at least 1 by 1; so every prepared item, and every rectangle of
  the tiered layout, has a strictly positive width and height. No branch of the size
  model fails. In the linear size model of the naive packer a game of positive play time
  gets a strictly positive width and height, and a game of play time 0 gets 0 by 0.
\<close>

theorem C7_positive_size:
  "1 \<le> tierMult sqrtMax g \<and>
   1 \<le> fst (unitCell LW LH items) \<and> 1 \<le> snd (unitCell LW LH items) \<and>
   0 < pwidth (prepare sine (fst (unitCell LW LH items)) (snd (unitCell LW LH items))
                 (g, tierMult sqrtMax g)) \<and>
   0 < pheight (prepare sine (fst (unitCell LW LH items)) (snd (unitCell LW LH items))
                  (g, tierMult sqrtMax g)) \<and>
   (\<forall>p \<in> set (layoutGames sine (LW, LH) games). 0 < width p \<and> 0 < height p) \<and>
   (0 < playtime_forever g \<longrightarrow> 0 < swidth (sizedGame g) \<and> 0 < sheight (sizedGame g)) \<and>
   (playtime_forever g = 0 \<longrightarrow> swidth (sizedGame g) = 0 \<and> sheight (sizedGame g) = 0)"
proof -
  have m: "1 \<le> tierMult sqrtMax g" by (rule tierMult_ge1)
  note u = unitCell_ge1[of LW LH items]
  have "items_pos (map (prepare sine (fst (unitCell LW LH items)) (snd (unitCell LW LH items)))
          [(g, tierMult sqrtMax g)])"
    using m u by (intro prepare_pos) simp_all
  then have p: "0 < pwidth (prepare sine (fst (unitCell LW LH items)) (snd (unitCell LW LH items))
                 (g, tierMult sqrtMax g))"
    "0 < pheight (prepare sine (fst (unitCell LW LH items)) (snd (unitCell LW LH items))
                  (g, tierMult sqrtMax g))"
    by (simp_all add: items_pos_def)
  have l: "\<forall>p \<in> set (layoutGames sine (LW, LH) games). 0 < width p \<and> 0 < height p"
    using layoutGames_packed[of LH LW sine games] by (simp add: placed_pos_def)
  have n1: "0 < playtime_forever g \<longrightarrow> 0 < swidth (sizedGame g) \<and> 0 < sheight (sizedGame g)"
    by (simp add: sizedGame_def Let_def)
  have n2: "playtime_forever g = 0 \<longrightarrow> swidth (sizedGame g) = 0 \<and> sheight (sizedGame g) = 0"
    by (simp add: sizedGame_def Let_def)
  from m u p l n1 n2 show ?thesis by blast
qed

text \<open>C7, as amended, on the examples: an idle game in the tiered layout, \<open>played 2 10\<close> and an idle game in the linear size model.\<close>

theorem C7_positive_size_witness:
  "cell 0 100 1 \<in> set (layoutGames (\<lambda>_. 0) (1100, 1920) six_idle) \<and>
   0 < width (cell 0 100 1) \<and> 0 < height (cell 0 100 1) \<and>
   0 < playtime_forever (played 2 10) \<and> 0 < swidth (sizedGame (played 2 10)) \<and> 0 < sheight (sizedGame (played 2 10)) \<and>
   playtime_forever (idle 1) = 0 \<and> swidth (sizedGame (idle 1)) = 0 \<and>
   sheight (sizedGame (idle 1)) = 0"
proof -
  have m: "cell 0 100 1 \<in> set (layoutGames (\<lambda>_. 0) (1100, 1920) six_idle)"
    by (simp add: tiered_example)
  have h1: "0 < playtime_forever (played 2 10)" by (simp add: played_def)
  have h2: "playtime_forever (idle 1) = 0" by (simp add: idle_simps)
  from C7_positive_size[of 1 "played 2 10" 1100 1920 "[]" "\<lambda>_. 0" six_idle] m h1
  have a: "0 < width (cell 0 100 1) \<and> 0 < height (cell 0 100 1)"
    and b: "0 < swidth (sizedGame (played 2 10)) \<and> 0 < sheight (sizedGame (played 2 10))" by blast+
  from C7_positive_size[of 1 "idle 1" 1100 1920 "[]" "\<lambda>_. 0" six_idle] h2
  have c: "swidth (sizedGame (idle 1)) = 0 \<and> sheight (sizedGame (idle 1)) = 0" by blast
  from m h1 h2 a b c show ?thesis by blast
qed

section \<open>Empty input\<close>

text \<open>
  Claim C9. On an empty list of games both revisions of \<^verbatim>\<open>layoutGames\<close> return the empty
  list, and \<^verbatim>\<open>calculateCanvasDimensions(0)\<close> is the default canvas of 1080 by 1920;
  neither has a failing branch.
\<close>

theorem C9_empty_input:
  "layoutGames sine canvasDimensions [] = [] \<and>
   layoutGamesNaive canvasDimensions [] = [] \<and>
   calculateCanvasDimensions 0 = (1080, 1920)"
  by (simp add: layoutGames_def layoutGamesNaive_def calculateCanvasDimensions_def)

end
